theory Spec2Isabelle
  imports Main "HOL-Library.Word" "HOL-Library.Signed_Division"
begin

unbundle bit_operations_syntax

section \<open>The hexadecimal output module of libsigrok (src/output/hex.c)\<close>

subsection \<open>Types of libsigrok.h used by the module\<close>

text \<open>
  Modelled from the spec: the header libsigrok.h is not among the sources, so the return
  codes are the ones the module and its specification name: success, the argument error
  and the data error.
\<close>

datatype sr_error_code = SR_OK | SR_ERR_ARG | SR_ERR_DATA

datatype sr_channeltype = SR_CHANNEL_LOGIC | SR_CHANNEL_ANALOG

text \<open>\<^verbatim>\<open>struct sr_channel\<close>, the fields that \<^verbatim>\<open>sr_channel_new\<close> (src/device.c) fills.\<close>

record sr_channel =
  ch_index :: int
  ch_type :: sr_channeltype
  ch_enabled :: bool
  ch_name :: string

text \<open>
  \<^verbatim>\<open>struct sr_dev_inst\<close>: the channel list, and what
  \<^verbatim>\<open>sr_config_get(..., SR_CONF_SAMPLERATE, &gvar)\<close> answers for this device
  (\<open>Some rate\<close> when it returns \<^verbatim>\<open>SR_OK\<close>); the driver behind it is an external
  collaborator.
\<close>

record sr_dev_inst =
  channels :: "sr_channel list"
  conf_samplerate :: "64 word option"

text \<open>\<^verbatim>\<open>struct context\<close> (the word is reserved here, hence \<open>hex_context\<close>), field by field; a pointer that may be \<^verbatim>\<open>NULL\<close> is an option.\<close>

record hex_context =
  num_enabled_channels :: nat
  samples_per_line :: int
  bit_cnt :: int
  spl_cnt :: int
  trigger :: int
  channel_index :: "int list"
  channel_names :: "string list"
  line_values :: "string list"
  sample_buf :: "8 word list"
  lines :: "string list"
  header :: "string option"

text \<open>\<^verbatim>\<open>struct sr_output\<close>: the device, the optional parameter string, the module's state.\<close>

record sr_output =
  sdi :: "sr_dev_inst option"
  param :: "string option"
  internal :: "hex_context option"

text \<open>
  \<^verbatim>\<open>struct sr_datafeed_logic\<close>: the declared length in bytes, the unit size and the
  buffer that \<^verbatim>\<open>data\<close> points to.
\<close>

record sr_datafeed_logic =
  logic_length :: "64 word"
  logic_unitsize :: "16 word"
  logic_data :: "8 word list"

text \<open>A packet is its type tag together with the payload the module reads.\<close>

datatype sr_datafeed_packet =
    SR_DF_HEADER
  | SR_DF_END
  | SR_DF_META
  | SR_DF_TRIGGER
  | SR_DF_LOGIC sr_datafeed_logic
  | SR_DF_ANALOG
  | SR_DF_FRAME_BEGIN
  | SR_DF_FRAME_END

text \<open>
  What C leaves undefined is an outcome of its own: a read outside the sample buffer, a
  shift by a negative amount, an overflow of a signed \<^verbatim>\<open>int\<close>.
\<close>

datatype fault = OutOfBounds | NegativeShift | SignedOverflow

definition INT_MAX :: int where
  "INT_MAX = 2147483647"

subsection \<open>The C library and GLib calls the module makes\<close>

text \<open>\<^verbatim>\<open>%.2x\<close>: lower-case hexadecimal, at least two digits.\<close>

definition hex_digit :: "nat \<Rightarrow> char" where
  "hex_digit d = ''0123456789abcdef'' ! d"

fun hex_digits :: "nat \<Rightarrow> string" where
  "hex_digits n = (if n < 16 then [hex_digit n] else hex_digits (n div 16) @ [hex_digit (n mod 16)])"

declare hex_digits.simps [simp del]

definition printf_02x :: "nat \<Rightarrow> string" where
  "printf_02x n = (let s = hex_digits n in replicate (2 - length s) CHR ''0'' @ s)"

text \<open>\<^verbatim>\<open>%d\<close>: decimal, with a minus sign for a negative value.\<close>

definition dec_digit :: "nat \<Rightarrow> char" where
  "dec_digit d = ''0123456789'' ! d"

fun dec_digits :: "nat \<Rightarrow> string" where
  "dec_digits n = (if n < 10 then [dec_digit n] else dec_digits (n div 10) @ [dec_digit (n mod 10)])"

declare dec_digits.simps [simp del]

definition printf_d :: "int \<Rightarrow> string" where
  "printf_d k = (if k < 0 then CHR ''-'' # dec_digits (nat (- k)) else dec_digits (nat k))"

text \<open>\<^verbatim>\<open>%*s\<close> with the empty string: the field width in spaces (a negative width left-justifies).\<close>

definition printf_pad :: "int \<Rightarrow> string" where
  "printf_pad w = replicate (nat \<bar>w\<bar>) CHR '' ''"

text \<open>
  \<^verbatim>\<open>strtoul(s, NULL, 10)\<close> of ISO C with a 64-bit \<^verbatim>\<open>unsigned long\<close>: leading white
  space is skipped, one sign is accepted, the longest run of decimal digits is converted
  and what follows it is ignored. No digits give 0, a value out of range gives
  \<^verbatim>\<open>ULONG_MAX\<close>, a minus sign negates in the unsigned type.
\<close>

definition isspace :: "char \<Rightarrow> bool" where
  "isspace c \<longleftrightarrow> c \<in> set [CHR '' '', CHR 0x09, CHR 0x0A, CHR 0x0B, CHR 0x0C, CHR 0x0D]"

definition isdigit :: "char \<Rightarrow> bool" where
  "isdigit c \<longleftrightarrow> c \<in> set ''0123456789''"

definition digit_value :: "char \<Rightarrow> nat" where
  "digit_value c = of_char c - 48"

fun digits_value :: "nat \<Rightarrow> string \<Rightarrow> nat" where
  "digits_value acc [] = acc"
| "digits_value acc (c # cs) = digits_value (acc * 10 + digit_value c) cs"

definition strip_sign :: "string \<Rightarrow> bool \<times> string" where
  "strip_sign s = (case s of
      [] \<Rightarrow> (False, [])
    | c # r \<Rightarrow> if c = CHR ''-'' then (True, r) else if c = CHR ''+'' then (False, r) else (False, s))"

definition strtoul :: "string \<Rightarrow> 64 word" where
  "strtoul s =
     (let (neg, r) = strip_sign (dropWhile isspace s);
          ds = takeWhile isdigit r;
          v = digits_value 0 ds
      in if ds = [] then 0
         else if 2 ^ 64 \<le> v then - 1
         else if neg then - word_of_nat v
         else word_of_nat v)"

text \<open>Storing an \<^verbatim>\<open>unsigned long\<close> in an \<^verbatim>\<open>int\<close> keeps the low 32 bits, read as two's complement.\<close>

definition ulong_to_int :: "64 word \<Rightarrow> int" where
  "ulong_to_int v = sint (ucast v :: 32 word)"

subsection \<open>init\<close>

definition DEFAULT_SAMPLES_PER_LINE :: int where
  "DEFAULT_SAMPLES_PER_LINE = 192"

text \<open>\<^verbatim>\<open>g_malloc0(sizeof(struct context))\<close>: every field zero, every pointer \<^verbatim>\<open>NULL\<close>.\<close>

definition zero_context :: hex_context where
  "zero_context = \<lparr>num_enabled_channels = 0, samples_per_line = 0, bit_cnt = 0, spl_cnt = 0,
     trigger = 0, channel_index = [], channel_names = [], line_values = [], sample_buf = [],
     lines = [], header = None\<rparr>"

text \<open>The first loop over the channel list counts the enabled logic channels.\<close>

fun count_channels :: "sr_channel list \<Rightarrow> nat \<Rightarrow> nat" where
  "count_channels [] n = n"
| "count_channels (ch # l) n =
     (if ch_type ch \<noteq> SR_CHANNEL_LOGIC then count_channels l n
      else if \<not> ch_enabled ch then count_channels l n
      else count_channels l (n + 1))"

text \<open>The second loop fills slot \<open>j\<close> of the four arrays for each enabled logic channel.\<close>

fun fill_channels :: "sr_channel list \<Rightarrow> nat \<Rightarrow> hex_context \<Rightarrow> hex_context" where
  "fill_channels [] j ctx = ctx"
| "fill_channels (ch # l) j ctx =
     (if ch_type ch \<noteq> SR_CHANNEL_LOGIC then fill_channels l j ctx
      else if \<not> ch_enabled ch then fill_channels l j ctx
      else fill_channels l (j + 1)
             (ctx\<lparr>channel_index := (channel_index ctx)[j := ch_index ch],
                  channel_names := (channel_names ctx)[j := ch_name ch],
                  lines := (lines ctx)[j := ch_name ch @ '':''],
                  sample_buf := (sample_buf ctx)[j := 0]\<rparr>))"

text \<open>
  The header: the package banner, and the acquisition line when the device answers the
  sample rate query. \<open>pkg\<close> is the macro \<^verbatim>\<open>PACKAGE_STRING\<close> and \<open>rate_s\<close> the function
  \<^verbatim>\<open>sr_samplerate_string\<close>; neither is defined in the sources at hand.
\<close>

definition make_header :: "string \<Rightarrow> (64 word \<Rightarrow> string) \<Rightarrow> sr_dev_inst \<Rightarrow> nat \<Rightarrow> string" where
  "make_header pkg rate_s dev n =
     pkg @ [CHR 0x0A] @
     (case conf_samplerate dev of
        None \<Rightarrow> []
      | Some samplerate \<Rightarrow>
          ''Acquisition with '' @ printf_d (int n) @ ''/'' @ printf_d (int (length (channels dev)))
          @ '' channels at '' @ rate_s samplerate @ [CHR 0x0A])"

text \<open>
  \<^verbatim>\<open>init\<close> returns its code and the output handle as it leaves it. The context is
  allocated and stored in the handle before the parameter is looked at.
\<close>

definition init :: "string \<Rightarrow> (64 word \<Rightarrow> string) \<Rightarrow> sr_output option \<Rightarrow> sr_error_code \<times> sr_output option" where
  "init pkg rate_s optr =
     (case optr of
        None \<Rightarrow> (SR_ERR_ARG, None)
      | Some out \<Rightarrow>
          (case sdi out of
             None \<Rightarrow> (SR_ERR_ARG, Some out)
           | Some dev \<Rightarrow>
               let ctx = zero_context\<lparr>trigger := - 1\<rparr>;
                   present = (case param out of None \<Rightarrow> False | Some p \<Rightarrow> p \<noteq> []);
                   spl = (if present then ulong_to_int (strtoul (the (param out)))
                          else DEFAULT_SAMPLES_PER_LINE)
               in if present \<and> spl < 1 then (SR_ERR_ARG, Some (out\<lparr>internal := Some ctx\<rparr>))
                  else
                    let ctx = ctx\<lparr>samples_per_line := spl\<rparr>;
                        ctx = ctx\<lparr>num_enabled_channels := count_channels (channels dev) 0\<rparr>;
                        n = num_enabled_channels ctx;
                        ctx = ctx\<lparr>channel_index := replicate n 0,
                                  channel_names := replicate n [],
                                  lines := replicate n [],
                                  sample_buf := replicate n 0\<rparr>;
                        ctx = fill_channels (channels dev) 0 ctx;
                        ctx = ctx\<lparr>header := Some (make_header pkg rate_s dev n)\<rparr>
                    in (SR_OK, Some (out\<lparr>internal := Some ctx\<rparr>))))"

subsection \<open>receive\<close>

text \<open>A \<^verbatim>\<open>for\<close> loop over the values its counter takes; a fault ends it.\<close>

fun for_each :: "('a \<Rightarrow> 's \<Rightarrow> fault + 's) \<Rightarrow> 'a list \<Rightarrow> 's \<Rightarrow> fault + 's" where
  "for_each body [] s = Inr s"
| "for_each body (j # js) s =
     (case body j s of Inl f \<Rightarrow> Inl f | Inr s' \<Rightarrow> for_each body js s')"

text \<open>
  The body of the inner loop of the \<^verbatim>\<open>SR_DF_LOGIC\<close> case, for channel \<open>j\<close>, in its
  three steps. First the accumulator is shifted left by one, as the \<^verbatim>\<open>uint8_t\<close> it is,
  and the sample's bit \<open>b\<close> is or-ed in.
\<close>

definition shift_sample :: "bool \<Rightarrow> nat \<Rightarrow> hex_context \<Rightarrow> hex_context" where
  "shift_sample b j ctx =
     (let ctx = ctx\<lparr>sample_buf := (sample_buf ctx)[j := push_bit 1 (sample_buf ctx ! j)]\<rparr>
      in if b then ctx\<lparr>sample_buf := (sample_buf ctx)[j := sample_buf ctx ! j OR 1]\<rparr> else ctx)"

text \<open>Then \<^verbatim>\<open>if (ctx->spl_cnt && pos == 0)\<close>: a byte's worth is buffered, it goes to the line.\<close>

definition emit_byte :: "int \<Rightarrow> nat \<Rightarrow> hex_context \<Rightarrow> hex_context" where
  "emit_byte pos j ctx =
     (if spl_cnt ctx \<noteq> 0 \<and> pos = 0
      then ctx\<lparr>lines := (lines ctx)[j := lines ctx ! j @ printf_02x (unat (sample_buf ctx ! j)) @ '' ''],
               sample_buf := (sample_buf ctx)[j := 0]\<rparr>
      else ctx)"

text \<open>
  Then \<^verbatim>\<open>if (ctx->spl_cnt == ctx->samples_per_line)\<close>: the line goes to \<^verbatim>\<open>*out\<close>, after
  the last channel the caret line of a pending trigger follows, and the line is set back
  to the channel name. The loop runs only when there is a channel, so
  \<^verbatim>\<open>num_enabled_channels - 1\<close> does not wrap.
\<close>

definition flush_line :: "nat \<Rightarrow> hex_context \<times> string \<Rightarrow> fault + hex_context \<times> string" where
  "flush_line j s =
     (let (ctx, out) = s
      in if spl_cnt ctx = samples_per_line ctx then
           let out = out @ lines ctx ! j @ [CHR 0x0A]
           in if j = num_enabled_channels ctx - 1 \<and> trigger ctx > - 1 then
                if INT_MAX < trigger ctx + trigger ctx sdiv 8 then Inl SignedOverflow
                else
                  let offset = trigger ctx + trigger ctx sdiv 8;
                      out = out @ ''T:'' @ printf_pad offset @ ''^ ''
                            @ printf_d (trigger ctx) @ [CHR 0x0A];
                      ctx = ctx\<lparr>trigger := - 1\<rparr>
                  in Inr (ctx\<lparr>lines := (lines ctx)[j := channel_names ctx ! j @ '':'']\<rparr>, out)
              else Inr (ctx\<lparr>lines := (lines ctx)[j := channel_names ctx ! j @ '':'']\<rparr>, out)
         else Inr (ctx, out))"

text \<open>
  The whole body, for the sample at byte offset \<open>i\<close>: \<open>p\<close> is the offset of the byte that
  \<^verbatim>\<open>logic->data + i + idx / 8\<close> points to. C divides towards zero (\<open>sdiv\<close>, \<open>smod\<close>).
  The state is the context and the text of \<^verbatim>\<open>*out\<close>.
\<close>

definition logic_channel :: "sr_datafeed_logic \<Rightarrow> 64 word \<Rightarrow> int \<Rightarrow> nat \<Rightarrow> hex_context \<times> string \<Rightarrow> fault + hex_context \<times> string" where
  "logic_channel logic i pos j s =
     (let (ctx, out) = s;
          idx = channel_index ctx ! j;
          p = int (unat i) + idx sdiv 8
      in if p < 0 \<or> int (length (logic_data logic)) \<le> p then Inl OutOfBounds
         else if idx smod 8 < 0 then Inl NegativeShift
         else
           let ctx = shift_sample (bit (logic_data logic ! nat p) (nat (idx smod 8))) j ctx;
               ctx = emit_byte pos j ctx
           in flush_line j (ctx, out))"

text \<open>The body of the outer loop: one sample, at byte offset \<open>i\<close>.\<close>

definition logic_sample :: "sr_datafeed_logic \<Rightarrow> 64 word \<Rightarrow> hex_context \<times> string \<Rightarrow> fault + hex_context \<times> string" where
  "logic_sample logic i s =
     (let (ctx, out) = s
      in if spl_cnt ctx = INT_MAX then Inl SignedOverflow
         else
           let ctx = ctx\<lparr>spl_cnt := spl_cnt ctx + 1\<rparr>;
               pos = spl_cnt ctx AND 7
           in case for_each (logic_channel logic i pos) [0..<num_enabled_channels ctx] (ctx, out) of
                Inl f \<Rightarrow> Inl f
              | Inr (ctx, out) \<Rightarrow>
                  if spl_cnt ctx = samples_per_line ctx then Inr (ctx\<lparr>spl_cnt := 0\<rparr>, out)
                  else Inr (ctx, out))"

text \<open>
  The outer loop, \<^verbatim>\<open>for (i = 0; i <= logic->length - logic->unitsize; i += logic->unitsize)\<close>,
  in 64-bit unsigned arithmetic: the subtraction and the increment wrap. It need not end
  (a unit size of 0 never advances), so not returning is the value \<open>None\<close>.
\<close>

partial_function (option) logic_loop :: "sr_datafeed_logic \<Rightarrow> 64 word \<Rightarrow> hex_context \<times> string \<Rightarrow> (fault + hex_context \<times> string) option" where
  "logic_loop logic i s =
     (if i \<le> logic_length logic - ucast (logic_unitsize logic) then
        (case logic_sample logic i s of
           Inl f \<Rightarrow> Some (Inl f)
         | Inr s' \<Rightarrow> logic_loop logic (i + ucast (logic_unitsize logic)) s')
      else Some (Inr s))"

text \<open>The body of the loop of the \<^verbatim>\<open>SR_DF_END\<close> case, for channel \<open>i\<close>.\<close>

definition end_channel :: "nat \<Rightarrow> hex_context \<times> string \<Rightarrow> fault + hex_context \<times> string" where
  "end_channel i s =
     (let (ctx, out) = s;
          ctx = (if spl_cnt ctx AND 7 \<noteq> 0
                 then ctx\<lparr>lines := (lines ctx)[i := lines ctx ! i
                        @ printf_02x (nat (push_bit (nat (8 - (spl_cnt ctx AND 7))) (uint (sample_buf ctx ! i))))
                        @ '' '']\<rparr>
                 else ctx)
      in Inr (ctx, out @ lines ctx ! i @ [CHR 0x0A]))"

text \<open>
  The \<^verbatim>\<open>switch\<close> of \<^verbatim>\<open>receive\<close> on a context. The result is the context afterwards
  and \<^verbatim>\<open>*out\<close> (\<open>None\<close> for \<^verbatim>\<open>NULL\<close>); every case that returns, returns \<^verbatim>\<open>SR_OK\<close>.
\<close>

definition receive_switch :: "hex_context \<Rightarrow> sr_datafeed_packet \<Rightarrow> (fault + hex_context \<times> string option) option" where
  "receive_switch ctx packet =
     (case packet of
        SR_DF_TRIGGER \<Rightarrow> Some (Inr (ctx\<lparr>trigger := spl_cnt ctx\<rparr>, None))
      | SR_DF_LOGIC logic \<Rightarrow>
          (let (out, ctx) = (case header ctx of
                               Some h \<Rightarrow> (h, ctx\<lparr>header := None\<rparr>)
                             | None \<Rightarrow> ([], ctx))
           in case logic_loop logic 0 (ctx, out) of
                None \<Rightarrow> None
              | Some (Inl f) \<Rightarrow> Some (Inl f)
              | Some (Inr (ctx, out)) \<Rightarrow> Some (Inr (ctx, Some out)))
      | SR_DF_END \<Rightarrow>
          (if spl_cnt ctx \<noteq> 0 then
             (case for_each end_channel [0..<num_enabled_channels ctx] (ctx, []) of
                Inl f \<Rightarrow> Some (Inl f)
              | Inr (ctx, out) \<Rightarrow> Some (Inr (ctx, Some out)))
           else Some (Inr (ctx, None)))
      | _ \<Rightarrow> Some (Inr (ctx, None)))"

text \<open>
  \<^verbatim>\<open>receive\<close>: the code returned, the output handle afterwards and \<^verbatim>\<open>*out\<close>; \<open>None\<close>
  when the call does not return, \<open>Inl\<close> when it runs into undefined behaviour.
\<close>

definition receive :: "sr_output option \<Rightarrow> sr_datafeed_packet \<Rightarrow> (fault + sr_error_code \<times> sr_output option \<times> string option) option" where
  "receive optr packet =
     (case optr of
        None \<Rightarrow> Some (Inr (SR_ERR_ARG, None, None))
      | Some out \<Rightarrow>
          (case sdi out of
             None \<Rightarrow> Some (Inr (SR_ERR_ARG, Some out, None))
           | Some dev \<Rightarrow>
               (case internal out of
                  None \<Rightarrow> Some (Inr (SR_ERR_ARG, Some out, None))
                | Some ctx \<Rightarrow>
                    (case receive_switch ctx packet of
                       None \<Rightarrow> None
                     | Some (Inl f) \<Rightarrow> Some (Inl f)
                     | Some (Inr (ctx', chunk)) \<Rightarrow>
                         Some (Inr (SR_OK, Some (out\<lparr>internal := Some ctx'\<rparr>), chunk))))))"

subsection \<open>What the end-of-stream flush writes\<close>

text \<open>
  The line of channel \<open>i\<close> as the \<^verbatim>\<open>SR_DF_END\<close> case emits it: the buffered line, and
  the accumulator shifted left behind it when the sample count is not a multiple of 8.
\<close>

definition end_line :: "hex_context \<Rightarrow> nat \<Rightarrow> string" where
  "end_line ctx i =
     (if spl_cnt ctx AND 7 \<noteq> 0
      then lines ctx ! i
           @ printf_02x (nat (push_bit (nat (8 - (spl_cnt ctx AND 7))) (uint (sample_buf ctx ! i)))) @ '' ''
      else lines ctx ! i)"

subsection \<open>What one sample does to one channel\<close>

text \<open>
  The bit of the channel with index \<open>idx\<close> in the sample at byte offset \<open>i\<close>, and the
  condition under which reading it is defined: the byte lies inside the buffer and the
  shift amount is not negative.
\<close>

definition sample_bit :: "sr_datafeed_logic \<Rightarrow> 64 word \<Rightarrow> int \<Rightarrow> bool" where
  "sample_bit logic i idx = bit (logic_data logic ! nat (int (unat i) + idx sdiv 8)) (nat (idx smod 8))"

definition readable :: "sr_datafeed_logic \<Rightarrow> 64 word \<Rightarrow> int \<Rightarrow> bool" where
  "readable logic i idx \<longleftrightarrow>
     0 \<le> int (unat i) + idx sdiv 8 \<and> int (unat i) + idx sdiv 8 < int (length (logic_data logic))
     \<and> 0 \<le> idx smod 8"

definition shift_in :: "bool \<Rightarrow> 8 word \<Rightarrow> 8 word" where
  "shift_in b w = (if b then push_bit 1 w OR 1 else push_bit 1 w)"

text \<open>
  The conditions of the two \<^verbatim>\<open>if\<close>s, read on the context whose \<open>spl_cnt\<close> already counts
  the sample, and what the sample leaves in slot \<open>j\<close> of the accumulators and what line
  of channel \<open>j\<close> a flush writes.
\<close>

definition byte_due :: "hex_context \<Rightarrow> bool" where
  "byte_due ctx \<longleftrightarrow> spl_cnt ctx \<noteq> 0 \<and> spl_cnt ctx AND 7 = 0"

definition line_full :: "hex_context \<Rightarrow> bool" where
  "line_full ctx \<longleftrightarrow> spl_cnt ctx = samples_per_line ctx"

definition caret_due :: "hex_context \<Rightarrow> bool" where
  "caret_due ctx \<longleftrightarrow> line_full ctx \<and> 0 < num_enabled_channels ctx \<and> - 1 < trigger ctx"

definition acc_next :: "sr_datafeed_logic \<Rightarrow> 64 word \<Rightarrow> hex_context \<Rightarrow> nat \<Rightarrow> 8 word" where
  "acc_next logic i ctx j = shift_in (sample_bit logic i (channel_index ctx ! j)) (sample_buf ctx ! j)"

definition buf_next :: "sr_datafeed_logic \<Rightarrow> 64 word \<Rightarrow> hex_context \<Rightarrow> nat \<Rightarrow> 8 word" where
  "buf_next logic i ctx j = (if byte_due ctx then 0 else acc_next logic i ctx j)"

definition line_next :: "sr_datafeed_logic \<Rightarrow> 64 word \<Rightarrow> hex_context \<Rightarrow> nat \<Rightarrow> string" where
  "line_next logic i ctx j =
     (if byte_due ctx then lines ctx ! j @ printf_02x (unat (acc_next logic i ctx j)) @ '' ''
      else lines ctx ! j)"

definition caret_line :: "int \<Rightarrow> string" where
  "caret_line t = ''T:'' @ printf_pad (t + t sdiv 8) @ ''^ '' @ printf_d t @ [CHR 0x0A]"

text \<open>
  Every selected channel can be read in the sample at byte offset \<open>i\<close>.
\<close>

definition channels_readable :: "sr_datafeed_logic \<Rightarrow> 64 word \<Rightarrow> hex_context \<Rightarrow> bool" where
  "channels_readable logic i ctx \<longleftrightarrow>
     list_all (\<lambda>j. readable logic i (channel_index ctx ! j)) [0..<num_enabled_channels ctx]"

text \<open>
  The four arrays have one slot per selected channel, as \<^verbatim>\<open>init\<close> allocates them.
\<close>

definition arrays_sized :: "hex_context \<Rightarrow> bool" where
  "arrays_sized ctx \<longleftrightarrow>
     length (channel_index ctx) = num_enabled_channels ctx
     \<and> length (channel_names ctx) = num_enabled_channels ctx
     \<and> length (sample_buf ctx) = num_enabled_channels ctx
     \<and> length (lines ctx) = num_enabled_channels ctx"

text \<open>
  The context after \<^verbatim>\<open>ctx->spl_cnt++\<close>.
\<close>

definition counted :: "hex_context \<Rightarrow> hex_context" where
  "counted ctx = ctx\<lparr>spl_cnt := spl_cnt ctx + 1\<rparr>"

text \<open>
  What one sample makes of the context: every accumulator and line moves on, a full line
  resets the lines, the counter and, when there is a channel, the pending trigger.
\<close>

definition sample_ctx :: "sr_datafeed_logic \<Rightarrow> 64 word \<Rightarrow> hex_context \<Rightarrow> hex_context" where
  "sample_ctx logic i ctx =
     (let c = counted ctx
      in c\<lparr>sample_buf := map (buf_next logic i c) [0..<num_enabled_channels c],
           lines := map (\<lambda>j. if line_full c then channel_names c ! j @ '':'' else line_next logic i c j)
                        [0..<num_enabled_channels c],
           trigger := if caret_due c then - 1 else trigger c,
           spl_cnt := if line_full c then 0 else spl_cnt c\<rparr>)"

text \<open>
  What one sample appends to \<^verbatim>\<open>*out\<close>: nothing, or on a full line the lines of the
  channels and then the caret line of a pending trigger.
\<close>

definition sample_text :: "sr_datafeed_logic \<Rightarrow> 64 word \<Rightarrow> hex_context \<Rightarrow> string" where
  "sample_text logic i ctx =
     (let c = counted ctx
      in if line_full c
         then concat (map (\<lambda>j. line_next logic i c j @ [CHR 0x0A]) [0..<num_enabled_channels c])
              @ (if caret_due c then caret_line (trigger c) else [])
         else [])"

text \<open>
  The sum \<^verbatim>\<open>ctx->trigger + ctx->trigger / 8\<close> does not overflow where it is computed.
\<close>

definition caret_fits :: "hex_context \<Rightarrow> bool" where
  "caret_fits ctx \<longleftrightarrow>
     (caret_due (counted ctx) \<longrightarrow> trigger ctx + trigger ctx sdiv 8 \<le> INT_MAX)"

text \<open>
  The byte offsets the outer loop visits when the unit size is positive and at most the
  length: \<open>0\<close>, \<open>unitsize\<close>, ... for each of the \<open>length div unitsize\<close> whole samples.
\<close>

definition sample_offsets :: "sr_datafeed_logic \<Rightarrow> 64 word list" where
  "sample_offsets logic =
     map (\<lambda>k. word_of_nat (k * unat (logic_unitsize logic)))
         [0..<unat (logic_length logic) div unat (logic_unitsize logic)]"

text \<open>
  The contexts the module works on between two calls: the arrays sized, the counter inside
  the line, and a line width small enough for the caret offset
  \<open>trigger + trigger / 8\<close> to fit an \<^verbatim>\<open>int\<close> (8/9 of \<^verbatim>\<open>INT_MAX\<close>).
\<close>

definition ctx_ok :: "hex_context \<Rightarrow> bool" where
  "ctx_ok ctx \<longleftrightarrow>
     arrays_sized ctx \<and> 0 \<le> spl_cnt ctx \<and> spl_cnt ctx < samples_per_line ctx
     \<and> samples_per_line ctx \<le> 1908874353 \<and> trigger ctx < samples_per_line ctx"

text \<open>
  A run of samples, each named by its packet and byte offset: the context it leaves and the
  text it appends to \<^verbatim>\<open>*out\<close>.
\<close>

primrec run_ctx :: "(sr_datafeed_logic \<times> 64 word) list \<Rightarrow> hex_context \<Rightarrow> hex_context" where
  "run_ctx [] ctx = ctx"
| "run_ctx (x # xs) ctx = run_ctx xs (sample_ctx (fst x) (snd x) ctx)"

primrec run_text :: "(sr_datafeed_logic \<times> 64 word) list \<Rightarrow> hex_context \<Rightarrow> string" where
  "run_text [] ctx = []"
| "run_text (x # xs) ctx = sample_text (fst x) (snd x) ctx @ run_text xs (sample_ctx (fst x) (snd x) ctx)"

text \<open>The samples of one packet, in the order the loop visits them.\<close>

definition packet_samples :: "sr_datafeed_logic \<Rightarrow> (sr_datafeed_logic \<times> 64 word) list" where
  "packet_samples logic = map (Pair logic) (sample_offsets logic)"

text \<open>
  A packet the loop handles without leaving the buffer: a positive unit size, at least one
  unit, a buffer that holds the declared length, and every selected channel's byte inside
  the unit.
\<close>

definition packet_ok :: "sr_datafeed_logic \<Rightarrow> hex_context \<Rightarrow> bool" where
  "packet_ok logic ctx \<longleftrightarrow>
     logic_unitsize logic \<noteq> 0 \<and> unat (logic_unitsize logic) \<le> unat (logic_length logic)
     \<and> unat (logic_length logic) \<le> length (logic_data logic)
     \<and> list_all (\<lambda>j. 0 \<le> channel_index ctx ! j
                       \<and> channel_index ctx ! j div 8 < int (unat (logic_unitsize logic)))
          [0..<num_enabled_channels ctx]"

text \<open>The header text still waiting in the context, empty once it is gone.\<close>

definition buffered_header :: "hex_context \<Rightarrow> string" where
  "buffered_header ctx = (case header ctx of Some h \<Rightarrow> h | None \<Rightarrow> [])"

text \<open>The selected channels: the enabled logic channels, in the order of the device's list.\<close>

definition selected :: "sr_dev_inst \<Rightarrow> sr_channel list" where
  "selected dev = filter (\<lambda>ch. ch_type ch = SR_CHANNEL_LOGIC \<and> ch_enabled ch) (channels dev)"

text \<open>
  The context a successful \<^verbatim>\<open>init\<close> builds for line width \<open>spl\<close>: one slot per selected
  channel, the lines seeded with the channel names, the header buffered.
\<close>

definition initial_context :: "string \<Rightarrow> (64 word \<Rightarrow> string) \<Rightarrow> sr_dev_inst \<Rightarrow> int \<Rightarrow> hex_context" where
  "initial_context pkg rate_s dev spl =
     \<lparr>num_enabled_channels = length (selected dev), samples_per_line = spl, bit_cnt = 0,
      spl_cnt = 0, trigger = - 1, channel_index = map ch_index (selected dev),
      channel_names = map ch_name (selected dev), line_values = [],
      sample_buf = replicate (length (selected dev)) 0,
      lines = map (\<lambda>ch. ch_name ch @ '':'') (selected dev),
      header = Some (make_header pkg rate_s dev (length (selected dev)))\<rparr>"

text \<open>The test \<^verbatim>\<open>o->param && o->param[0]\<close> of \<^verbatim>\<open>init\<close>, and the line width it arrives at.\<close>

definition param_present :: "sr_output \<Rightarrow> bool" where
  "param_present out = (case param out of None \<Rightarrow> False | Some p \<Rightarrow> p \<noteq> [])"

definition param_width :: "sr_output \<Rightarrow> int" where
  "param_width out =
     (if param_present out then ulong_to_int (strtoul (the (param out))) else DEFAULT_SAMPLES_PER_LINE)"

text \<open>A plain decimal numeral: digits only, at least one.\<close>

definition decimal :: "string \<Rightarrow> bool" where
  "decimal s \<longleftrightarrow> s \<noteq> [] \<and> list_all isdigit s"

definition logic_odd :: sr_datafeed_logic where
  "logic_odd = \<lparr>logic_length = 3, logic_unitsize = 2, logic_data = [1, 0, 1]\<rparr>"

definition logic_short :: sr_datafeed_logic where
  "logic_short = \<lparr>logic_length = 1, logic_unitsize = 2, logic_data = [1]\<rparr>"

text \<open>
  The packet cut down to its whole samples: the length rounded down to a multiple of the
  unit size, and the buffer cut to that length.
\<close>

definition whole_samples :: "sr_datafeed_logic \<Rightarrow> sr_datafeed_logic" where
  "whole_samples logic =
     (let m = unat (logic_length logic) div unat (logic_unitsize logic) * unat (logic_unitsize logic)
      in logic\<lparr>logic_length := word_of_nat m, logic_data := take m (logic_data logic)\<rparr>)"

subsection \<open>Bits, bytes and lines of hex text\<close>

text \<open>
  The accumulator after the bits \<open>bs\<close> have been shifted in, oldest first, and the byte that
  a run of bits packs into when the accumulator starts at zero.
\<close>

definition shift_all :: "8 word \<Rightarrow> bool list \<Rightarrow> 8 word" where
  "shift_all w bs = foldl (\<lambda>w b. shift_in b w) w bs"

definition pack :: "bool list \<Rightarrow> 8 word" where
  "pack bs = shift_all 0 bs"

text \<open>The number a list of bits denotes, most significant bit first.\<close>

definition bits_value :: "bool list \<Rightarrow> nat" where
  "bits_value bs = foldl (\<lambda>v b. 2 * v + of_bool b) 0 bs"

text \<open>
  The hex text of a run of bits: one \<^verbatim>\<open>%.2x\<close> byte and a blank for every eight bits, the last
  byte filled up with zero bits on the right.
\<close>

fun hex_line :: "bool list \<Rightarrow> string" where
  "hex_line bs =
     (if bs = [] then []
      else printf_02x (unat (pack (take 8 (bs @ replicate 7 False)))) @ '' '' @ hex_line (drop 8 bs))"

declare hex_line.simps [simp del]

text \<open>The text of the complete bytes of a run of bits, and the bits behind the last complete byte.\<close>

definition hex_done :: "bool list \<Rightarrow> string" where
  "hex_done bs = hex_line (take (8 * (length bs div 8)) bs)"

definition pending :: "bool list \<Rightarrow> bool list" where
  "pending bs = drop (8 * (length bs div 8)) bs"

text \<open>
  Reading hex text back: the value of a hex digit, the eight bits of a byte with the most
  significant bit first, the bytes of a text made of two digits and a blank each, and the bits
  of such a text.
\<close>

definition hex_value :: "char \<Rightarrow> nat" where
  "hex_value c = length (takeWhile (\<lambda>d. d \<noteq> c) ''0123456789abcdef'')"

definition byte_bits :: "nat \<Rightarrow> bool list" where
  "byte_bits v = map (\<lambda>k. bit v (7 - k)) [0..<8]"

fun unhex :: "string \<Rightarrow> nat list" where
  "unhex (a # b # c # rest) = (16 * hex_value a + hex_value b) # unhex rest"
| "unhex rest = []"

definition decode_line :: "string \<Rightarrow> bool list" where
  "decode_line s = concat (map byte_bits (unhex s))"

text \<open>The bits of channel \<open>j\<close> in a list of samples, a sample being a packet and a byte offset.\<close>

definition chan_bits :: "hex_context \<Rightarrow> nat \<Rightarrow> (sr_datafeed_logic \<times> 64 word) list \<Rightarrow> bool list" where
  "chan_bits ctx j xs = map (\<lambda>x. sample_bit (fst x) (snd x) (channel_index ctx ! j)) xs"

subsection \<open>Streams of packets\<close>

text \<open>
  A context at the start of a line whose width is a multiple of 8: no sample counted, no
  trigger pending, every line buffer holding the channel name and a colon, every accumulator
  zero.
\<close>

definition line_start :: "hex_context \<Rightarrow> bool" where
  "line_start ctx \<longleftrightarrow>
     ctx_ok ctx \<and> spl_cnt ctx = 0 \<and> trigger ctx \<le> - 1 \<and> 8 dvd samples_per_line ctx
     \<and> lines ctx = map (\<lambda>name. name @ '':'') (channel_names ctx)
     \<and> sample_buf ctx = replicate (num_enabled_channels ctx) 0"

text \<open>
  The text of one line of output for the samples \<open>g\<close>: for every channel its name, a colon,
  the hex text of its bits and a line feed.
\<close>

definition block :: "hex_context \<Rightarrow> (sr_datafeed_logic \<times> 64 word) list \<Rightarrow> string" where
  "block ctx g =
     concat (map (\<lambda>j. channel_names ctx ! j @ '':'' @ hex_line (chan_bits ctx j g) @ [CHR 0x0A])
                 [0..<num_enabled_channels ctx])"

text \<open>The chunk of the \<^verbatim>\<open>SR_DF_END\<close> case, empty when the case hands out none.\<close>

definition end_text :: "hex_context \<Rightarrow> string" where
  "end_text ctx =
     (if spl_cnt ctx \<noteq> 0
      then concat (map (\<lambda>i. end_line ctx i @ [CHR 0x0A]) [0..<num_enabled_channels ctx])
      else [])"

text \<open>A list cut into pieces of \<open>k\<close> elements, the last piece possibly shorter.\<close>

fun chunks :: "nat \<Rightarrow> 'a list \<Rightarrow> 'a list list" where
  "chunks k xs = (if k = 0 \<or> xs = [] then [] else take k xs # chunks k (drop k xs))"

declare chunks.simps [simp del]

text \<open>
  \<^verbatim>\<open>receive\<close> called on one packet after the other, as the session does: the output handle
  at the end and the chunks handed out, one behind the other.
\<close>

fun feed :: "sr_output option \<Rightarrow> sr_datafeed_packet list \<Rightarrow> (fault + sr_output option \<times> string) option" where
  "feed optr [] = Some (Inr (optr, []))"
| "feed optr (p # ps) =
     (case receive optr p of
        None \<Rightarrow> None
      | Some (Inl f) \<Rightarrow> Some (Inl f)
      | Some (Inr (rc, optr', chunk)) \<Rightarrow>
          (case feed optr' ps of
             None \<Rightarrow> None
           | Some (Inl f) \<Rightarrow> Some (Inl f)
           | Some (Inr (optr'', text)) \<Rightarrow>
               Some (Inr (optr'', (case chunk of None \<Rightarrow> [] | Some c \<Rightarrow> c) @ text))))"

definition fed_text :: "(fault + sr_output option \<times> string) option \<Rightarrow> string option" where
  "fed_text r = (case r of Some (Inr (optr, text)) \<Rightarrow> Some text | _ \<Rightarrow> None)"

text \<open>Concrete values for the instances below.\<close>

definition dev_A :: sr_dev_inst where
  "dev_A = \<lparr>channels = [\<lparr>ch_index = 0, ch_type = SR_CHANNEL_LOGIC, ch_enabled = True, ch_name = ''A''\<rparr>],
            conf_samplerate = None\<rparr>"

definition ctx_A :: hex_context where
  "ctx_A = \<lparr>num_enabled_channels = 1, samples_per_line = 8, bit_cnt = 0, spl_cnt = 3,
            trigger = - 1, channel_index = [0], channel_names = [''A''], line_values = [],
            sample_buf = [5], lines = [''A:''], header = None\<rparr>"

definition rate_A :: "64 word \<Rightarrow> string" where
  "rate_A r = ''1 MHz''"

definition out_A :: sr_output where
  "out_A = \<lparr>sdi = Some dev_A, param = None, internal = None\<rparr>"

definition logic_one :: sr_datafeed_logic where
  "logic_one = \<lparr>logic_length = 1, logic_unitsize = 1, logic_data = [1]\<rparr>"

definition ctx_C :: hex_context where
  "ctx_C = \<lparr>num_enabled_channels = 1, samples_per_line = 192, bit_cnt = 0, spl_cnt = 0,
            trigger = - 1, channel_index = [0], channel_names = [''A''], line_values = [],
            sample_buf = [0], lines = [''A:''], header = Some (''libsigrok 0.3.0'' @ [CHR 0x0A])\<rparr>"

definition logic_11 :: sr_datafeed_logic where
  "logic_11 = \<lparr>logic_length = 11, logic_unitsize = 1, logic_data = [1, 1, 1, 1, 0, 0, 0, 0, 1, 0, 1]\<rparr>"

definition logic_ones12 :: sr_datafeed_logic where
  "logic_ones12 = \<lparr>logic_length = 12, logic_unitsize = 1, logic_data = [1, 1, 1, 1, 1, 1, 1, 1, 1, 1, 1, 1]\<rparr>"

definition logic_zeros8 :: sr_datafeed_logic where
  "logic_zeros8 = \<lparr>logic_length = 8, logic_unitsize = 1, logic_data = [0, 0, 0, 0, 0, 0, 0, 0]\<rparr>"

definition logic_3 :: sr_datafeed_logic where
  "logic_3 = \<lparr>logic_length = 3, logic_unitsize = 1, logic_data = [1, 0, 1]\<rparr>"

definition ctx_D :: hex_context where
  "ctx_D = \<lparr>num_enabled_channels = 1, samples_per_line = 12, bit_cnt = 0, spl_cnt = 0,
            trigger = - 1, channel_index = [0], channel_names = [''A''], line_values = [],
            sample_buf = [15], lines = [''A:''], header = None\<rparr>"

definition ctx_E :: hex_context where
  "ctx_E = \<lparr>num_enabled_channels = 1, samples_per_line = 8, bit_cnt = 0, spl_cnt = 0,
            trigger = - 1, channel_index = [0], channel_names = [''A''], line_values = [],
            sample_buf = [0], lines = [''A:''], header = None\<rparr>"





section \<open>Properties\<close>

subsection \<open>Loops over the channels\<close>

lemma for_each_append:
  "for_each body (xs @ ys) s = (case for_each body xs s of Inl f \<Rightarrow> Inl f | Inr s' \<Rightarrow> for_each body ys s')"
  by (induction xs arbitrary: s) (auto split: sum.splits)

lemma map_upt_update:
  "k < n \<Longrightarrow> (map g [0..<n])[k := v] = map (g(k := v)) [0..<n]"
  by (rule nth_equalityI) (auto simp: nth_list_update)

lemma and7_mod8: "(x::int) AND 7 = x mod 8"
proof -
  have "x AND 7 = x AND mask 3" by (simp add: mask_eq_exp_minus_1)
  also have "\<dots> = take_bit 3 x" by (simp only: take_bit_eq_mask)
  also have "\<dots> = x mod 8" by (simp add: take_bit_eq_mod)
  finally show ?thesis .
qed

lemma receive_initialised:
  "receive (Some \<lparr>sdi = Some dev, param = p, internal = Some ctx\<rparr>) pkt =
     (case receive_switch ctx pkt of
        None \<Rightarrow> None
      | Some (Inl f) \<Rightarrow> Some (Inl f)
      | Some (Inr (ctx', chunk)) \<Rightarrow>
          Some (Inr (SR_OK, Some \<lparr>sdi = Some dev, param = p, internal = Some ctx'\<rparr>, chunk)))"
  by (simp add: receive_def split: option.splits sum.splits)

subsection \<open>The end-of-stream flush\<close>

lemma end_loop_prefix:
  assumes "length (lines ctx) = num_enabled_channels ctx" and "k \<le> num_enabled_channels ctx"
  shows "for_each end_channel [0..<k] (ctx, out) =
           Inr (ctx\<lparr>lines := map (\<lambda>i. if i < k then end_line ctx i else lines ctx ! i)
                                  [0..<num_enabled_channels ctx]\<rparr>,
                out @ concat (map (\<lambda>i. end_line ctx i @ [CHR 0x0A]) [0..<k]))"
  using assms(2)
proof (induction k)
  case 0
  then show ?case using assms(1) map_nth [of "lines ctx"] by simp
next
  case (Suc k)
  then have k: "k < num_enabled_channels ctx" by simp
  have fu: "(\<lambda>i. if i < k then end_line ctx i else lines ctx ! i)(k := end_line ctx k)
             = (\<lambda>i. if i < Suc k then end_line ctx i else lines ctx ! i)"
    by (auto simp: fun_eq_iff less_Suc_eq)
  show ?case
    using Suc.IH k
    by (simp add: for_each_append end_channel_def map_upt_update fu Let_def)
       (simp add: end_line_def)
qed

lemma receive_switch_end:
  assumes "length (lines ctx) = num_enabled_channels ctx"
  shows "receive_switch ctx SR_DF_END =
           (if spl_cnt ctx \<noteq> 0
            then Some (Inr (ctx\<lparr>lines := map (end_line ctx) [0..<num_enabled_channels ctx]\<rparr>,
                            Some (concat (map (\<lambda>i. end_line ctx i @ [CHR 0x0A]) [0..<num_enabled_channels ctx]))))
            else Some (Inr (ctx, None)))"
  using end_loop_prefix [OF assms order_refl, of "[]"]
  by (simp add: receive_switch_def cong: map_cong)

lemma printf_02x_160: "printf_02x 160 = ''a0''"
  by (simp add: printf_02x_def hex_digits.simps hex_digit_def)

subsection \<open>One sample\<close>

lemma shift_sample_eq:
  "j < length (sample_buf ctx) \<Longrightarrow>
   shift_sample b j ctx = ctx\<lparr>sample_buf := (sample_buf ctx)[j := shift_in b (sample_buf ctx ! j)]\<rparr>"
  by (simp add: shift_sample_def shift_in_def Let_def)

lemma emit_byte_eq:
  "j < length (sample_buf ctx) \<Longrightarrow>
   emit_byte (spl_cnt ctx AND 7) j ctx =
     (if byte_due ctx
      then ctx\<lparr>lines := (lines ctx)[j := lines ctx ! j @ printf_02x (unat (sample_buf ctx ! j)) @ '' ''],
               sample_buf := (sample_buf ctx)[j := 0]\<rparr>
      else ctx)"
  by (simp add: emit_byte_def byte_due_def)

lemma flush_line_eq:
  assumes "j < num_enabled_channels ctx"
    and "caret_due ctx \<longrightarrow> trigger ctx + trigger ctx sdiv 8 \<le> INT_MAX"
  shows "flush_line j (ctx, out) =
     Inr (if line_full ctx
          then ctx\<lparr>lines := (lines ctx)[j := channel_names ctx ! j @ '':''],
                   trigger := if j = num_enabled_channels ctx - 1 \<and> - 1 < trigger ctx then - 1 else trigger ctx\<rparr>
          else ctx,
          out @ (if line_full ctx
                 then lines ctx ! j @ [CHR 0x0A]
                      @ (if j = num_enabled_channels ctx - 1 \<and> - 1 < trigger ctx then caret_line (trigger ctx) else [])
                 else []))"
  using assms
  by (cases "line_full ctx"; cases "- 1 < trigger ctx"; cases "j = num_enabled_channels ctx - 1")
     (auto simp add: flush_line_def Let_def line_full_def caret_due_def caret_line_def)


lemma logic_channel_step:
  assumes "readable logic i (channel_index ctx ! j)"
    and "j < num_enabled_channels ctx"
    and "length (sample_buf ctx) = num_enabled_channels ctx"
    and "length (lines ctx) = num_enabled_channels ctx"
    and "caret_due ctx \<longrightarrow> trigger ctx + trigger ctx sdiv 8 \<le> INT_MAX"
  shows "logic_channel logic i (spl_cnt ctx AND 7) j (ctx, out) =
     Inr (ctx\<lparr>sample_buf := (sample_buf ctx)[j := buf_next logic i ctx j],
              lines := (lines ctx)[j := if line_full ctx then channel_names ctx ! j @ '':''
                                        else line_next logic i ctx j],
              trigger := if j = num_enabled_channels ctx - 1 \<and> caret_due ctx then - 1 else trigger ctx\<rparr>,
          out @ (if line_full ctx
                 then line_next logic i ctx j @ [CHR 0x0A]
                      @ (if j = num_enabled_channels ctx - 1 \<and> caret_due ctx then caret_line (trigger ctx) else [])
                 else []))"
proof -
  let ?b = "sample_bit logic i (channel_index ctx ! j)"
  let ?c1 = "ctx\<lparr>sample_buf := (sample_buf ctx)[j := acc_next logic i ctx j]\<rparr>"
  let ?c2 = "emit_byte (spl_cnt ctx AND 7) j ?c1"
  have rd: "\<not> (int (unat i) + channel_index ctx ! j sdiv 8 < 0
              \<or> int (length (logic_data logic)) \<le> int (unat i) + channel_index ctx ! j sdiv 8)"
       "\<not> channel_index ctx ! j smod 8 < 0"
    using assms(1) by (auto simp: readable_def)
  have j: "j < length (sample_buf ctx)" "j < length (lines ctx)"
    using assms(2-4) by simp_all
  have 1: "logic_channel logic i (spl_cnt ctx AND 7) j (ctx, out) = flush_line j (?c2, out)"
    using rd j(1)
    by (simp add: logic_channel_def Let_def shift_sample_eq acc_next_def sample_bit_def)
  have bd: "byte_due ?c1 = byte_due ctx" "line_full ?c1 = line_full ctx"
    by (simp_all add: byte_due_def line_full_def)
  have 2: "?c2 = ctx\<lparr>sample_buf := (sample_buf ctx)[j := buf_next logic i ctx j],
                     lines := (lines ctx)[j := line_next logic i ctx j]\<rparr>"
    using j emit_byte_eq [of j ?c1]
    by (cases "byte_due ctx") (simp_all add: bd buf_next_def line_next_def)
  let ?c3 = "ctx\<lparr>sample_buf := (sample_buf ctx)[j := buf_next logic i ctx j],
                    lines := (lines ctx)[j := line_next logic i ctx j]\<rparr>"
  have 3: "line_full ?c3 = line_full ctx" "caret_due ?c3 = caret_due ctx"
    by (simp_all add: line_full_def caret_due_def)
  have 4: "(j = num_enabled_channels ctx - 1 \<and> caret_due ctx)
            = (line_full ctx \<and> j = num_enabled_channels ctx - 1 \<and> - 1 < trigger ctx)"
    using assms(2) by (auto simp: caret_due_def)
  have 5: "j < num_enabled_channels ?c3" "caret_due ?c3 \<longrightarrow> trigger ?c3 + trigger ?c3 sdiv 8 \<le> INT_MAX"
    using assms(2,5) by (simp_all add: 3)
  show ?thesis
    unfolding 1 2 flush_line_eq [OF 5] 3 4
    using j by (cases "line_full ctx") simp_all
qed


lemma buf_next_cong:
  "byte_due c' = byte_due c \<Longrightarrow> channel_index c' ! j = channel_index c ! j \<Longrightarrow>
   sample_buf c' ! j = sample_buf c ! j \<Longrightarrow> buf_next logic i c' j = buf_next logic i c j"
  by (simp add: buf_next_def acc_next_def)

lemma line_next_cong:
  "byte_due c' = byte_due c \<Longrightarrow> channel_index c' ! j = channel_index c ! j \<Longrightarrow>
   sample_buf c' ! j = sample_buf c ! j \<Longrightarrow> lines c' ! j = lines c ! j \<Longrightarrow>
   line_next logic i c' j = line_next logic i c j"
  by (simp add: line_next_def acc_next_def)

lemma channels_readable_iff:
  "channels_readable logic i ctx \<longleftrightarrow>
     (\<forall>j < num_enabled_channels ctx. readable logic i (channel_index ctx ! j))"
  by (auto simp: channels_readable_def list_all_iff)

lemma logic_channels_prefix:
  assumes sz: "arrays_sized ctx"
    and rd: "channels_readable logic i ctx"
    and ov: "caret_due ctx \<longrightarrow> trigger ctx + trigger ctx sdiv 8 \<le> INT_MAX"
    and k: "k \<le> num_enabled_channels ctx"
  shows "for_each (logic_channel logic i (spl_cnt ctx AND 7)) [0..<k] (ctx, out) =
     Inr (ctx\<lparr>sample_buf := map (\<lambda>j. if j < k then buf_next logic i ctx j else sample_buf ctx ! j)
                                [0..<num_enabled_channels ctx],
              lines := map (\<lambda>j. if j < k then (if line_full ctx then channel_names ctx ! j @ '':''
                                                else line_next logic i ctx j)
                                 else lines ctx ! j) [0..<num_enabled_channels ctx],
              trigger := if k = num_enabled_channels ctx \<and> caret_due ctx then - 1 else trigger ctx\<rparr>,
          out @ (if line_full ctx
                 then concat (map (\<lambda>j. line_next logic i ctx j @ [CHR 0x0A]) [0..<k])
                      @ (if k = num_enabled_channels ctx \<and> caret_due ctx then caret_line (trigger ctx) else [])
                 else []))"
  using k
proof (induction k)
  case 0
  have nd: "(num_enabled_channels ctx = 0 \<and> caret_due ctx) = False"
    by (auto simp: caret_due_def)
  show ?case
    using sz map_nth [of "sample_buf ctx"] map_nth [of "lines ctx"]
    by (simp add: arrays_sized_def nd)
next
  case (Suc k)
  let ?n = "num_enabled_channels ctx"
  let ?sb = "\<lambda>j. if j < k then buf_next logic i ctx j else sample_buf ctx ! j"
  let ?ln = "\<lambda>j. if j < k then (if line_full ctx then channel_names ctx ! j @ '':''
                                 else line_next logic i ctx j) else lines ctx ! j"
  let ?ck = "ctx\<lparr>sample_buf := map ?sb [0..<?n], lines := map ?ln [0..<?n]\<rparr>"
  from Suc.prems have kn: "k < ?n" by simp
  then have kneq: "k \<noteq> ?n" by simp
  have IH: "for_each (logic_channel logic i (spl_cnt ctx AND 7)) [0..<k] (ctx, out) =
     Inr (?ck, out @ (if line_full ctx
                 then concat (map (\<lambda>j. line_next logic i ctx j @ [CHR 0x0A]) [0..<k]) else []))"
    using Suc.IH kn by (simp add: kneq)
  have ck: "spl_cnt ?ck = spl_cnt ctx" "line_full ?ck = line_full ctx" "caret_due ?ck = caret_due ctx"
    "byte_due ?ck = byte_due ctx" "num_enabled_channels ?ck = ?n" "trigger ?ck = trigger ctx"
    "channel_index ?ck = channel_index ctx" "channel_names ?ck = channel_names ctx"
    by (simp_all add: line_full_def caret_due_def byte_due_def)
  have slot: "sample_buf ?ck ! k = sample_buf ctx ! k" "lines ?ck ! k = lines ctx ! k"
    using kn by simp_all
  have nx: "buf_next logic i ?ck k = buf_next logic i ctx k"
    "line_next logic i ?ck k = line_next logic i ctx k"
    using ck slot by (auto intro!: buf_next_cong line_next_cong)
  have pre: "readable logic i (channel_index ?ck ! k)" "k < num_enabled_channels ?ck"
    "length (sample_buf ?ck) = num_enabled_channels ?ck" "length (lines ?ck) = num_enabled_channels ?ck"
    "caret_due ?ck \<longrightarrow> trigger ?ck + trigger ?ck sdiv 8 \<le> INT_MAX"
    using rd kn ov by (simp_all add: channels_readable_iff ck)
  have step: "logic_channel logic i (spl_cnt ctx AND 7) k (?ck, out') =
     Inr (?ck\<lparr>sample_buf := (sample_buf ?ck)[k := buf_next logic i ctx k],
              lines := (lines ?ck)[k := if line_full ctx then channel_names ctx ! k @ '':''
                                        else line_next logic i ctx k],
              trigger := if k = ?n - 1 \<and> caret_due ctx then - 1 else trigger ctx\<rparr>,
          out' @ (if line_full ctx
                 then line_next logic i ctx k @ [CHR 0x0A]
                      @ (if k = ?n - 1 \<and> caret_due ctx then caret_line (trigger ctx) else [])
                 else []))" for out'
    using logic_channel_step [OF pre, of out'] by (simp only: ck nx)
  have last: "(k = ?n - 1) = (Suc k = ?n)"
    using kn by auto
  have fs: "?sb(k := buf_next logic i ctx k) = (\<lambda>j. if j < Suc k then buf_next logic i ctx j else sample_buf ctx ! j)"
    by (auto simp: fun_eq_iff less_Suc_eq)
  have fl: "?ln(k := if line_full ctx then channel_names ctx ! k @ '':'' else line_next logic i ctx k)
          = (\<lambda>j. if j < Suc k then (if line_full ctx then channel_names ctx ! j @ '':''
                                 else line_next logic i ctx j) else lines ctx ! j)"
    by (auto simp: fun_eq_iff less_Suc_eq)
  have sel: "sample_buf ?ck = map ?sb [0..<?n]" "lines ?ck = map ?ln [0..<?n]"
    by simp_all
  have upd: "(sample_buf ?ck)[k := buf_next logic i ctx k]
               = map (\<lambda>j. if j < Suc k then buf_next logic i ctx j else sample_buf ctx ! j) [0..<?n]"
    "(lines ?ck)[k := if line_full ctx then channel_names ctx ! k @ '':'' else line_next logic i ctx k]
               = map (\<lambda>j. if j < Suc k then (if line_full ctx then channel_names ctx ! j @ '':''
                                 else line_next logic i ctx j) else lines ctx ! j) [0..<?n]"
    unfolding sel map_upt_update [OF kn] fs fl by (rule refl)+
  show ?case
    unfolding upt_Suc_append [OF le0] for_each_append IH
    by (simp only: sum.case for_each.simps step upd last)
       (cases "line_full ctx"; simp)
qed


lemma logic_sample_eq:
  assumes sz: "arrays_sized ctx"
    and rd: "channels_readable logic i ctx"
    and cnt: "spl_cnt ctx \<noteq> INT_MAX"
    and ov: "caret_fits ctx"
  shows "logic_sample logic i (ctx, out) = Inr (sample_ctx logic i ctx, out @ sample_text logic i ctx)"
proof -
  define c where "c = counted ctx"
  have c_eq: "ctx\<lparr>spl_cnt := spl_cnt ctx + 1\<rparr> = c"
    by (simp add: c_def counted_def)
  have pre: "arrays_sized c" "channels_readable logic i c"
    "caret_due c \<longrightarrow> trigger c + trigger c sdiv 8 \<le> INT_MAX"
    using sz rd ov by (simp_all add: c_def counted_def arrays_sized_def channels_readable_iff caret_fits_def)
  have sel: "num_enabled_channels ctx = num_enabled_channels c" "spl_cnt ctx + 1 = spl_cnt c"
    by (simp_all add: c_def counted_def)
  have c_eq': "ctx\<lparr>spl_cnt := spl_cnt c\<rparr> = c"
    by (simp add: c_def counted_def)
  have stxt: "sample_text logic i ctx =
      (if line_full c
         then concat (map (\<lambda>j. line_next logic i c j @ [CHR 0x0A]) [0..<num_enabled_channels c])
              @ (if caret_due c then caret_line (trigger c) else [])
         else [])"
    by (simp add: sample_text_def c_def Let_def)
  define c' where "c' = c\<lparr>sample_buf := map (buf_next logic i c) [0..<num_enabled_channels c],
              lines := map (\<lambda>j. if line_full c then channel_names c ! j @ '':'' else line_next logic i c j)
                        [0..<num_enabled_channels c],
              trigger := if caret_due c then - 1 else trigger c\<rparr>"
  have loop: "for_each (logic_channel logic i (spl_cnt c AND 7)) [0..<num_enabled_channels c] (c, out) =
     Inr (c', out @ sample_text logic i ctx)"
    using logic_channels_prefix [OF pre order_refl, of out]
    by (simp add: stxt c'_def cong: map_cong)
  have fin: "sample_ctx logic i ctx = (if spl_cnt c' = samples_per_line c' then c'\<lparr>spl_cnt := 0\<rparr> else c')"
    by (simp add: sample_ctx_def c_def [symmetric] c'_def line_full_def)
  show ?thesis
    using cnt
    by (simp add: logic_sample_def Let_def c_eq c_eq' sel loop fin)
qed

lemma unat_64_bound: "unat (w :: 64 word) < 2 ^ 64"
  using unsigned_less [of w, where ?'a = nat] by simp

lemma unat_ucast_16_64: "unat (ucast (w :: 16 word) :: 64 word) = unat w"
proof -
  have "unat w < 2 ^ 16" using unsigned_less [of w, where ?'a = nat] by simp
  then have "unat w < 2 ^ 64" by (rule less_trans) simp
  then show ?thesis by (simp add: unsigned_ucast_eq take_bit_nat_eq_self)
qed

lemma logic_loop_from:
  assumes us: "logic_unitsize logic \<noteq> 0"
    and le: "unat (logic_unitsize logic) \<le> unat (logic_length logic)"
    and k: "k \<le> unat (logic_length logic) div unat (logic_unitsize logic)"
  shows "logic_loop logic (word_of_nat (k * unat (logic_unitsize logic))) s =
           Some (for_each (logic_sample logic)
                   (map (\<lambda>k. word_of_nat (k * unat (logic_unitsize logic)))
                        [k..<unat (logic_length logic) div unat (logic_unitsize logic)]) s)"
  using k
proof (induction "unat (logic_length logic) div unat (logic_unitsize logic) - k" arbitrary: k s)
  case 0
  let ?U = "unat (logic_unitsize logic)" and ?L = "unat (logic_length logic)"
  from 0 have k: "k = ?L div ?U" by simp
  have U: "0 < ?U" using us by (simp add: unat_gt_0)
  have uc: "unat (ucast (logic_unitsize logic) :: 64 word) = ?U"
    by (rule unat_ucast_16_64)
  have sub: "unat (logic_length logic - ucast (logic_unitsize logic)) = ?L - ?U"
    using le uc by (simp add: unat_sub word_le_nat_alt)
  have kU: "k * ?U \<le> ?L" using k by simp
  have "?L < 2 ^ 64" by (rule unat_64_bound)
  with kU have "k * ?U < 2 ^ 64" by simp
  then have un: "unat (word_of_nat (k * ?U) :: 64 word) = k * ?U"
    by (subst unat_of_nat) simp
  have "?L < k * ?U + ?U"
    using U k by (metis add.commute div_mult_mod_eq mod_less_divisor add_less_cancel_left mult.commute)
  then have "\<not> k * ?U \<le> ?L - ?U" using le by simp
  then have stop: "\<not> (word_of_nat (k * ?U) :: 64 word) \<le> logic_length logic - ucast (logic_unitsize logic)"
    unfolding word_le_nat_alt un sub .
  have nil: "[k..<?L div ?U] = []" using k by simp
  show ?case
    by (subst logic_loop.simps) (simp only: stop if_False nil list.map for_each.simps)
next
  case (Suc d)
  let ?U = "unat (logic_unitsize logic)" and ?L = "unat (logic_length logic)"
  from Suc have k: "k < ?L div ?U" by simp
  have U: "0 < ?U" using us by (simp add: unat_gt_0)
  have uc: "unat (ucast (logic_unitsize logic) :: 64 word) = ?U"
    by (rule unat_ucast_16_64)
  have sub: "unat (logic_length logic - ucast (logic_unitsize logic)) = ?L - ?U"
    using le uc by (simp add: unat_sub word_le_nat_alt)
  have "Suc k \<le> ?L div ?U" using k by simp
  then have "Suc k * ?U \<le> ?L"
    using U less_eq_div_iff_mult_less_eq [of ?U "Suc k" ?L] by blast
  then have kU: "k * ?U + ?U \<le> ?L" by simp
  have "?L < 2 ^ 64" by (rule unat_64_bound)
  with kU have "k * ?U < 2 ^ 64" by simp
  then have un: "unat (word_of_nat (k * ?U) :: 64 word) = k * ?U"
    by (subst unat_of_nat) simp
  have go: "(word_of_nat (k * ?U) :: 64 word) \<le> logic_length logic - ucast (logic_unitsize logic)"
    unfolding word_le_nat_alt un sub using kU by simp
  have nxt: "(word_of_nat (k * ?U) :: 64 word) + ucast (logic_unitsize logic) = word_of_nat (Suc k * ?U)"
    by (simp add: add.commute)
  have d: "d = ?L div ?U - Suc k" using Suc(2) by simp
  have IH: "logic_loop logic (word_of_nat (Suc k * ?U)) s' =
           Some (for_each (logic_sample logic) (map (\<lambda>k. word_of_nat (k * ?U)) [Suc k..<?L div ?U]) s')" for s'
    using Suc(1) [OF d] k by simp
  show ?case
  proof (cases "logic_sample logic (word_of_nat (k * ?U)) s")
    case (Inl f)
    show ?thesis
      by (subst logic_loop.simps)
         (simp only: go if_True Inl sum.case upt_conv_Cons [OF k] list.map for_each.simps)
  next
    case (Inr s')
    show ?thesis
      by (subst logic_loop.simps)
         (simp only: go if_True Inr sum.case nxt IH upt_conv_Cons [OF k] list.map for_each.simps)
  qed
qed

lemma logic_loop_unroll:
  assumes "logic_unitsize logic \<noteq> 0"
    and "unat (logic_unitsize logic) \<le> unat (logic_length logic)"
  shows "logic_loop logic 0 s = Some (for_each (logic_sample logic) (sample_offsets logic) s)"
  using logic_loop_from [OF assms, of 0 s] by (simp add: sample_offsets_def)

subsection \<open>Runs of samples\<close>

lemma sdiv8_nonneg: "0 \<le> k \<Longrightarrow> k sdiv 8 = k div 8" for k :: int
  by (cases "k = 0") (simp_all add: signed_divide_int_def)

lemma smod8_nonneg: "0 \<le> k \<Longrightarrow> k smod 8 = k mod 8" for k :: int
  by (cases "k = 0") (simp_all add: signed_modulo_int_def)

lemma sample_ctx_fields [simp]:
  "samples_per_line (sample_ctx logic i ctx) = samples_per_line ctx"
  "num_enabled_channels (sample_ctx logic i ctx) = num_enabled_channels ctx"
  "channel_index (sample_ctx logic i ctx) = channel_index ctx"
  "channel_names (sample_ctx logic i ctx) = channel_names ctx"
  "header (sample_ctx logic i ctx) = header ctx"
  "spl_cnt (sample_ctx logic i ctx) = (if spl_cnt ctx + 1 = samples_per_line ctx then 0 else spl_cnt ctx + 1)"
  "length (sample_buf (sample_ctx logic i ctx)) = num_enabled_channels ctx"
  "length (lines (sample_ctx logic i ctx)) = num_enabled_channels ctx"
  by (simp_all add: sample_ctx_def counted_def line_full_def Let_def)

lemma sample_ctx_trigger:
  "trigger (sample_ctx logic i ctx) =
     (if spl_cnt ctx + 1 = samples_per_line ctx \<and> 0 < num_enabled_channels ctx \<and> - 1 < trigger ctx
      then - 1 else trigger ctx)"
  by (simp add: sample_ctx_def counted_def line_full_def caret_due_def Let_def)

lemma ctx_ok_sample: "ctx_ok ctx \<Longrightarrow> ctx_ok (sample_ctx logic i ctx)"
  by (auto simp: ctx_ok_def arrays_sized_def sample_ctx_trigger)

lemma ctx_ok_sampleable:
  assumes "ctx_ok ctx"
  shows "spl_cnt ctx \<noteq> INT_MAX" and "caret_fits ctx"
proof -
  show "spl_cnt ctx \<noteq> INT_MAX"
    using assms by (simp add: ctx_ok_def INT_MAX_def)
  have "trigger ctx + trigger ctx sdiv 8 \<le> INT_MAX" if "- 1 < trigger ctx"
  proof -
    from that have "0 \<le> trigger ctx" by simp
    moreover have "trigger ctx \<le> 1908874353" using assms by (simp add: ctx_ok_def)
    ultimately show ?thesis by (simp add: sdiv8_nonneg INT_MAX_def)
  qed
  then show "caret_fits ctx"
    by (simp add: caret_fits_def caret_due_def counted_def)
qed

lemma channels_readable_sample [simp]:
  "channels_readable logic i (sample_ctx logic' i' ctx) = channels_readable logic i ctx"
  by (simp add: channels_readable_iff)

lemma for_each_samples:
  assumes "ctx_ok ctx" and "\<forall>i \<in> set offs. channels_readable logic i ctx"
  shows "for_each (logic_sample logic) offs (ctx, out) =
           Inr (run_ctx (map (Pair logic) offs) ctx, out @ run_text (map (Pair logic) offs) ctx)"
  using assms
proof (induction offs arbitrary: ctx out)
  case Nil
  then show ?case by simp
next
  case (Cons i offs)
  have 1: "logic_sample logic i (ctx, out) = Inr (sample_ctx logic i ctx, out @ sample_text logic i ctx)"
    using Cons.prems ctx_ok_sampleable [of ctx]
    by (intro logic_sample_eq) (simp_all add: ctx_ok_def)
  show ?case
    using Cons.IH [of "sample_ctx logic i ctx" "out @ sample_text logic i ctx"] Cons.prems
    by (simp add: 1 ctx_ok_sample)
qed

lemma packet_ok_readable:
  assumes "packet_ok logic ctx" and "i \<in> set (sample_offsets logic)"
  shows "channels_readable logic i ctx"
proof -
  let ?U = "unat (logic_unitsize logic)" and ?L = "unat (logic_length logic)"
  from assms(2) obtain k where k: "k < ?L div ?U" and i: "i = word_of_nat (k * ?U)"
    by (auto simp: sample_offsets_def)
  have U: "0 < ?U" using assms(1) by (simp add: packet_ok_def unat_gt_0)
  have "Suc k \<le> ?L div ?U" using k by simp
  then have "Suc k * ?U \<le> ?L"
    using U less_eq_div_iff_mult_less_eq [of ?U "Suc k" ?L] by blast
  then have kU: "k * ?U + ?U \<le> ?L" by simp
  have "?L < 2 ^ 64" by (rule unat_64_bound)
  with kU have "k * ?U < 2 ^ 64" by simp
  then have un: "unat i = k * ?U"
    unfolding i by (subst unat_of_nat) simp
  have len: "?L \<le> length (logic_data logic)"
    using assms(1) by (simp add: packet_ok_def)
  show ?thesis
    unfolding channels_readable_iff
  proof (intro allI impI)
    fix j assume j: "j < num_enabled_channels ctx"
    let ?idx = "channel_index ctx ! j"
    from assms(1) j have idx: "0 \<le> ?idx" "?idx div 8 < int ?U"
      by (auto simp: packet_ok_def list_all_iff)
    have "0 \<le> ?idx div 8" using idx(1) by simp
    moreover have "int (unat i) + ?idx div 8 < int (length (logic_data logic))"
      using idx(2) kU len un by linarith
    moreover have "0 \<le> ?idx mod 8" by simp
    ultimately show "readable logic i ?idx"
      using idx(1) by (simp add: readable_def sdiv8_nonneg smod8_nonneg)
  qed
qed

lemma packet_ok_header [simp]: "packet_ok logic (ctx\<lparr>header := h\<rparr>) = packet_ok logic ctx"
  by (simp add: packet_ok_def)

lemma ctx_ok_header [simp]: "ctx_ok (ctx\<lparr>header := h\<rparr>) = ctx_ok ctx"
  by (simp add: ctx_ok_def arrays_sized_def)

lemma receive_switch_logic:
  assumes "ctx_ok ctx" and "packet_ok logic ctx"
  shows "receive_switch ctx (SR_DF_LOGIC logic) =
           Some (Inr (run_ctx (packet_samples logic) (ctx\<lparr>header := None\<rparr>),
                      Some (buffered_header ctx @ run_text (packet_samples logic) (ctx\<lparr>header := None\<rparr>))))"
proof -
  let ?c = "ctx\<lparr>header := None\<rparr>"
  have ok: "ctx_ok ?c" "packet_ok logic ?c" using assms by simp_all
  have loop: "logic_loop logic 0 (?c, out) =
      Some (Inr (run_ctx (packet_samples logic) ?c, out @ run_text (packet_samples logic) ?c))" for out
    using ok packet_ok_readable [OF ok(2)] assms(2)
    by (simp add: logic_loop_unroll packet_ok_def for_each_samples packet_samples_def)
  show ?thesis
  proof (cases "header ctx")
    case None
    then have c: "?c = ctx" by simp
    show ?thesis
      unfolding c using loop [of "[]", unfolded c]
      by (simp add: receive_switch_def buffered_header_def None)
  next
    case (Some h)
    with loop [of h] show ?thesis
      by (simp add: receive_switch_def buffered_header_def)
  qed
qed


lemma run_ctx_append: "run_ctx (xs @ ys) ctx = run_ctx ys (run_ctx xs ctx)"
  by (induction xs arbitrary: ctx) simp_all

lemma run_text_append: "run_text (xs @ ys) ctx = run_text xs ctx @ run_text ys (run_ctx xs ctx)"
  by (induction xs arbitrary: ctx) simp_all

lemma run_ctx_fields [simp]:
  "samples_per_line (run_ctx xs ctx) = samples_per_line ctx"
  "num_enabled_channels (run_ctx xs ctx) = num_enabled_channels ctx"
  "channel_index (run_ctx xs ctx) = channel_index ctx"
  "channel_names (run_ctx xs ctx) = channel_names ctx"
  "header (run_ctx xs ctx) = header ctx"
  by (induction xs arbitrary: ctx) simp_all

lemma ctx_ok_run: "ctx_ok ctx \<Longrightarrow> ctx_ok (run_ctx xs ctx)"
  by (induction xs arbitrary: ctx) (simp_all add: ctx_ok_sample)

lemma sample_text_quiet:
  "spl_cnt ctx + 1 \<noteq> samples_per_line ctx \<Longrightarrow> sample_text logic i ctx = []"
  by (simp add: sample_text_def counted_def line_full_def Let_def)

lemma run_quiet:
  "spl_cnt ctx + int (length xs) < samples_per_line ctx \<Longrightarrow>
   run_text xs ctx = [] \<and> spl_cnt (run_ctx xs ctx) = spl_cnt ctx + int (length xs)
   \<and> trigger (run_ctx xs ctx) = trigger ctx"
proof (induction xs arbitrary: ctx)
  case Nil
  then show ?case by simp
next
  case (Cons x xs)
  from Cons.prems have ne: "spl_cnt ctx + 1 \<noteq> samples_per_line ctx" by simp
  with Cons.prems have "spl_cnt (sample_ctx (fst x) (snd x) ctx) + int (length xs) < samples_per_line (sample_ctx (fst x) (snd x) ctx)"
    by simp
  from Cons.IH [OF this] ne show ?case
    by (simp add: sample_text_quiet sample_ctx_trigger)
qed

lemma length_packet_samples [simp]:
  "length (packet_samples logic) = unat (logic_length logic) div unat (logic_unitsize logic)"
  by (simp add: packet_samples_def sample_offsets_def)




declare logic_loop.simps [code]

subsection \<open>init\<close>

lemma count_channels_eq:
  "count_channels l n = n + length (filter (\<lambda>ch. ch_type ch = SR_CHANNEL_LOGIC \<and> ch_enabled ch) l)"
  by (induction l arbitrary: n) simp_all

lemma take_Suc_update:
  "j < length xs \<Longrightarrow> take (Suc j) (xs[j := v]) = take j xs @ [v]"
  by (simp add: take_Suc_conv_app_nth)

lemma fill_channels_eq:
  assumes "j + length (filter (\<lambda>ch. ch_type ch = SR_CHANNEL_LOGIC \<and> ch_enabled ch) l) \<le> length (channel_index ctx)"
    and "length (channel_names ctx) = length (channel_index ctx)"
    and "length (lines ctx) = length (channel_index ctx)"
    and "length (sample_buf ctx) = length (channel_index ctx)"
  shows "fill_channels l j ctx =
     (let sel = filter (\<lambda>ch. ch_type ch = SR_CHANNEL_LOGIC \<and> ch_enabled ch) l; m = j + length sel
      in ctx\<lparr>channel_index := take j (channel_index ctx) @ map ch_index sel @ drop m (channel_index ctx),
             channel_names := take j (channel_names ctx) @ map ch_name sel @ drop m (channel_names ctx),
             lines := take j (lines ctx) @ map (\<lambda>ch. ch_name ch @ '':'') sel @ drop m (lines ctx),
             sample_buf := take j (sample_buf ctx) @ map (\<lambda>ch. 0) sel @ drop m (sample_buf ctx)\<rparr>)"
  using assms
proof (induction l arbitrary: j ctx)
  case Nil
  then show ?case by simp
next
  case (Cons ch l)
  show ?case
  proof (cases "ch_type ch = SR_CHANNEL_LOGIC \<and> ch_enabled ch")
    case False
    with Cons.IH [of j ctx] Cons.prems show ?thesis by auto
  next
    case True
    let ?c = "ctx\<lparr>channel_index := (channel_index ctx)[j := ch_index ch],
                  channel_names := (channel_names ctx)[j := ch_name ch],
                  lines := (lines ctx)[j := ch_name ch @ '':''],
                  sample_buf := (sample_buf ctx)[j := 0]\<rparr>"
    from True Cons.prems have j: "j < length (channel_index ctx)" by simp
    have "fill_channels (ch # l) j ctx = fill_channels l (j + 1) ?c"
      using True by simp
    also have "\<dots> = (let sel = filter (\<lambda>ch. ch_type ch = SR_CHANNEL_LOGIC \<and> ch_enabled ch) l; m = j + 1 + length sel
      in ?c\<lparr>channel_index := take (j + 1) (channel_index ?c) @ map ch_index sel @ drop m (channel_index ?c),
             channel_names := take (j + 1) (channel_names ?c) @ map ch_name sel @ drop m (channel_names ?c),
             lines := take (j + 1) (lines ?c) @ map (\<lambda>ch. ch_name ch @ '':'') sel @ drop m (lines ?c),
             sample_buf := take (j + 1) (sample_buf ?c) @ map (\<lambda>ch. 0) sel @ drop m (sample_buf ?c)\<rparr>)"
      using True Cons.prems by (intro Cons.IH) simp_all
    finally show ?thesis
      using True j Cons.prems by (simp add: Let_def take_Suc_update)
  qed
qed

lemma init_eq:
  assumes "sdi out = Some dev"
  shows "init pkg rate_s (Some out) =
     (if param_present out \<and> param_width out < 1
      then (SR_ERR_ARG, Some (out\<lparr>internal := Some (zero_context\<lparr>trigger := - 1\<rparr>)\<rparr>))
      else (SR_OK, Some (out\<lparr>internal := Some (initial_context pkg rate_s dev (param_width out))\<rparr>)))"
proof -
  let ?n = "length (selected dev)"
  let ?c = "zero_context\<lparr>trigger := - 1, samples_per_line := param_width out,
              num_enabled_channels := ?n, channel_index := replicate ?n 0,
              channel_names := replicate ?n [], lines := replicate ?n [], sample_buf := replicate ?n 0\<rparr>"
  have "fill_channels (channels dev) 0 ?c = (initial_context pkg rate_s dev (param_width out))\<lparr>header := None\<rparr>"
    by (subst fill_channels_eq) (simp_all add: Let_def selected_def initial_context_def zero_context_def map_replicate_const)
  then show ?thesis
    using assms
    by (simp add: init_def Let_def param_present_def param_width_def count_channels_eq selected_def
        initial_context_def)
qed

lemma ulong_to_int_small:
  assumes "v < 2 ^ 31"
  shows "ulong_to_int (word_of_nat v) = int v"
proof -
  from assms have v64: "v < 2 ^ 64" and v32: "v < 2 ^ 32"
    by (rule less_trans, simp)+
  have 1: "unat (word_of_nat v :: 64 word) = v"
    using v64 by (simp add: unsigned_of_nat take_bit_nat_eq_self)
  have 2: "unat (ucast (word_of_nat v :: 64 word) :: 32 word) = v"
    using v32 by (simp only: unsigned_ucast_eq 1) (simp add: take_bit_nat_eq_self)
  have "(ucast (word_of_nat v :: 64 word) :: 32 word) = word_of_nat (unat (ucast (word_of_nat v :: 64 word) :: 32 word))"
    by (simp only: of_nat_unat ucast_id)
  then have 3: "(ucast (word_of_nat v :: 64 word) :: 32 word) = word_of_nat v"
    by (simp only: 2)
  have "sint (word_of_nat v :: 32 word) = int v"
    using assms by (simp add: signed_of_nat signed_take_bit_int_eq_self)
  then show ?thesis
    by (simp only: ulong_to_int_def 3)
qed

lemma isdigit_not_space: "isdigit c \<Longrightarrow> \<not> isspace c"
  by (auto simp: isdigit_def isspace_def)

lemma isdigit_not_sign: "isdigit c \<Longrightarrow> c \<noteq> CHR ''-'' \<and> c \<noteq> CHR ''+''"
  by (auto simp: isdigit_def)

lemma strtoul_decimal:
  assumes "decimal s"
  shows "strtoul s = (if 2 ^ 64 \<le> digits_value 0 s then - 1 else word_of_nat (digits_value 0 s))"
proof -
  from assms obtain c r where s: "s = c # r" and c: "isdigit c" and all: "list_all isdigit s"
    by (cases s) (auto simp: decimal_def)
  have 1: "dropWhile isspace s = s"
    using c by (simp add: s isdigit_not_space)
  have 2: "strip_sign s = (False, s)"
    using isdigit_not_sign [OF c] by (simp add: strip_sign_def s)
  have 3: "takeWhile isdigit s = s"
    using all by (simp add: list_all_iff)
  have ne: "s \<noteq> []" using s by simp
  show ?thesis
    unfolding strtoul_def 1 2 by (simp add: 3 ne Let_def)
qed

lemma strtoul_no_digits:
  "takeWhile isdigit (snd (strip_sign (dropWhile isspace s))) = [] \<Longrightarrow> strtoul s = 0"
  by (cases "strip_sign (dropWhile isspace s)") (simp add: strtoul_def)

lemma strtoul_examples:
  "strtoul ''0'' = 0" "strtoul ''abc'' = 0" "strtoul ''12abc'' = 12" "strtoul ''64'' = 64"
  by (simp_all add: strtoul_def strip_sign_def isspace_def isdigit_def digit_value_def)

lemma ulong_to_int_examples:
  "ulong_to_int 0 = 0" "ulong_to_int 12 = 12" "ulong_to_int 64 = 64"
  by (simp_all add: ulong_to_int_def)

subsection \<open>The whole samples of a packet\<close>

lemma sample_step_cong:
  assumes "\<forall>j < num_enabled_channels ctx.
             sample_bit logic i (channel_index ctx ! j) = sample_bit logic' i' (channel_index ctx ! j)"
  shows "sample_ctx logic i ctx = sample_ctx logic' i' ctx"
    and "sample_text logic i ctx = sample_text logic' i' ctx"
proof -
  let ?c = "counted ctx"
  have n: "num_enabled_channels ?c = num_enabled_channels ctx" "channel_index ?c = channel_index ctx"
    by (simp_all add: counted_def)
  have acc: "acc_next logic i ?c j = acc_next logic' i' ?c j" if "j < num_enabled_channels ctx" for j
    using assms that by (simp add: acc_next_def n)
  then have "buf_next logic i ?c j = buf_next logic' i' ?c j"
    and "line_next logic i ?c j = line_next logic' i' ?c j" if "j < num_enabled_channels ctx" for j
    using that by (simp_all add: buf_next_def line_next_def)
  then have m: "map (buf_next logic i ?c) [0..<num_enabled_channels ctx]
               = map (buf_next logic' i' ?c) [0..<num_enabled_channels ctx]"
    "map (\<lambda>j. if line_full ?c then channel_names ?c ! j @ '':'' else line_next logic i ?c j)
         [0..<num_enabled_channels ctx]
      = map (\<lambda>j. if line_full ?c then channel_names ?c ! j @ '':'' else line_next logic' i' ?c j)
         [0..<num_enabled_channels ctx]"
    "map (\<lambda>j. line_next logic i ?c j @ [CHR 0x0A]) [0..<num_enabled_channels ctx]
      = map (\<lambda>j. line_next logic' i' ?c j @ [CHR 0x0A]) [0..<num_enabled_channels ctx]"
    by (simp_all cong: map_cong)
  show "sample_ctx logic i ctx = sample_ctx logic' i' ctx"
    and "sample_text logic i ctx = sample_text logic' i' ctx"
    by (simp_all only: sample_ctx_def sample_text_def Let_def n m)
qed

lemma run_cong:
  assumes "\<forall>i \<in> set offs. \<forall>j < num_enabled_channels ctx.
             sample_bit logic i (channel_index ctx ! j) = sample_bit logic' i (channel_index ctx ! j)"
  shows "run_ctx (map (Pair logic) offs) ctx = run_ctx (map (Pair logic') offs) ctx
       \<and> run_text (map (Pair logic) offs) ctx = run_text (map (Pair logic') offs) ctx"
  using assms
proof (induction offs arbitrary: ctx)
  case Nil
  then show ?case by simp
next
  case (Cons i offs)
  have 1: "sample_ctx logic i ctx = sample_ctx logic' i ctx" "sample_text logic i ctx = sample_text logic' i ctx"
    using Cons.prems by (auto intro!: sample_step_cong)
  show ?case
    using Cons.IH [of "sample_ctx logic' i ctx"] Cons.prems by (simp add: 1)
qed

lemma whole_samples_facts:
  assumes "packet_ok logic ctx"
  shows "packet_ok (whole_samples logic) ctx"
    and "sample_offsets (whole_samples logic) = sample_offsets logic"
    and "\<forall>i \<in> set (sample_offsets logic). \<forall>j < num_enabled_channels ctx.
           sample_bit logic i (channel_index ctx ! j) = sample_bit (whole_samples logic) i (channel_index ctx ! j)"
proof -
  let ?U = "unat (logic_unitsize logic)" and ?L = "unat (logic_length logic)"
  let ?m = "?L div ?U"
  from assms have U: "0 < ?U" and UL: "?U \<le> ?L" and len: "?L \<le> length (logic_data logic)"
    by (simp_all add: packet_ok_def unat_gt_0)
  have mL: "?m * ?U \<le> ?L" by simp
  have m64: "?m * ?U < 2 ^ 64"
    using le_less_trans [OF mL unat_64_bound] .
  then have un: "unat (word_of_nat (?m * ?U) :: 64 word) = ?m * ?U"
    by (subst unat_of_nat) simp
  have m1: "1 \<le> ?m" using U UL by (simp add: Suc_le_eq div_greater_zero_iff)
  then have "1 * ?U \<le> ?m * ?U" by (rule mult_le_mono1)
  then have Um: "?U \<le> ?m * ?U" by simp
  have sel: "logic_unitsize (whole_samples logic) = logic_unitsize logic"
    "logic_length (whole_samples logic) = word_of_nat (?m * ?U)"
    "logic_data (whole_samples logic) = take (?m * ?U) (logic_data logic)"
    by (simp_all add: whole_samples_def Let_def)
  have mlen: "?m * ?U \<le> length (logic_data logic)"
    using mL len by (rule le_trans)
  have "length (take (?m * ?U) (logic_data logic)) = ?m * ?U"
    using mlen by simp
  then show "packet_ok (whole_samples logic) ctx"
    using assms Um unfolding packet_ok_def sel un by simp
  show "sample_offsets (whole_samples logic) = sample_offsets logic"
    using U unfolding sample_offsets_def sel un by simp
  show "\<forall>i \<in> set (sample_offsets logic). \<forall>j < num_enabled_channels ctx.
           sample_bit logic i (channel_index ctx ! j) = sample_bit (whole_samples logic) i (channel_index ctx ! j)"
  proof (intro ballI allI impI)
    fix i j assume i: "i \<in> set (sample_offsets logic)" and j: "j < num_enabled_channels ctx"
    let ?idx = "channel_index ctx ! j"
    from i obtain k where k: "k < ?m" and ik: "i = word_of_nat (k * ?U)"
      by (auto simp: sample_offsets_def)
    have "Suc k \<le> ?m" using k by simp
    then have "Suc k * ?U \<le> ?m * ?U" by (rule mult_le_mono1)
    then have kU: "k * ?U + ?U \<le> ?m * ?U" by simp
    with m64 have "k * ?U < 2 ^ 64" by simp
    then have ui: "unat i = k * ?U"
      unfolding ik by (subst unat_of_nat) simp
    from assms j have idx: "0 \<le> ?idx" "?idx div 8 < int ?U"
      by (auto simp: packet_ok_def list_all_iff)
    then have "0 \<le> ?idx div 8" by simp
    with idx(2) kU ui have "nat (int (unat i) + ?idx div 8) < ?m * ?U"
      by linarith
    then show "sample_bit logic i ?idx = sample_bit (whole_samples logic) i ?idx"
      using idx(1) by (simp add: sample_bit_def sel sdiv8_nonneg)
  qed
qed

lemma receive_whole_samples:
  assumes "ctx_ok ctx" and "packet_ok logic ctx"
  shows "receive_switch ctx (SR_DF_LOGIC (whole_samples logic)) = receive_switch ctx (SR_DF_LOGIC logic)"
proof -
  note w = whole_samples_facts [OF assms(2)]
  have "packet_samples (whole_samples logic) = map (Pair (whole_samples logic)) (sample_offsets logic)"
    by (simp add: packet_samples_def w(2))
  moreover have "\<forall>i \<in> set (sample_offsets logic). \<forall>j < num_enabled_channels (ctx\<lparr>header := None\<rparr>).
           sample_bit logic i (channel_index (ctx\<lparr>header := None\<rparr>) ! j)
             = sample_bit (whole_samples logic) i (channel_index (ctx\<lparr>header := None\<rparr>) ! j)"
    using w(3) by simp
  ultimately show ?thesis
    using run_cong [OF \<open>\<forall>i \<in> set (sample_offsets logic). \<forall>j < num_enabled_channels (ctx\<lparr>header := None\<rparr>). _\<close>]
    by (simp add: receive_switch_logic [OF assms] receive_switch_logic [OF assms(1) w(1)] packet_samples_def)
qed

subsection \<open>Bits and hex text\<close>

lemma shift_all_snoc [simp]: "shift_all w (bs @ [b]) = shift_in b (shift_all w bs)"
  by (simp add: shift_all_def)

lemma shift_all_Nil [simp]: "shift_all w [] = w"
  by (simp add: shift_all_def)

lemma bits_value_snoc [simp]: "bits_value (bs @ [b]) = 2 * bits_value bs + of_bool b"
  by (simp add: bits_value_def)

lemma bits_value_Nil [simp]: "bits_value [] = 0"
  by (simp add: bits_value_def)

lemma bits_value_bound: "bits_value bs < 2 ^ length bs"
  by (induction bs rule: rev_induct) (auto split: if_splits)

lemma shift_in_arith: "shift_in b w = 2 * w + of_bool b"
  by (cases b) (simp_all add: shift_in_def push_bit_eq_mult or_one_eq mult.commute)

lemma unat_shift_in: "unat (shift_in b w) = (2 * unat w + of_bool b) mod 256"
  by (cases b) (simp_all add: shift_in_arith unat_word_ariths mod_simps)

lemma double_mod_256: "(2 * (a mod 256) + c) mod 256 = (2 * a + c) mod (256::nat)"
proof -
  have "(2 * (a mod 256) + c) mod 256 = ((2 * (a mod 256)) mod 256 + c) mod 256"
    by (simp only: mod_add_left_eq)
  also have "\<dots> = ((2 * a) mod 256 + c) mod 256"
    by (simp only: mod_mult_right_eq)
  also have "\<dots> = (2 * a + c) mod 256"
    by (simp only: mod_add_left_eq)
  finally show ?thesis .
qed

lemma unat_shift_all:
  "unat (shift_all w bs) = (unat w * 2 ^ length bs + bits_value bs) mod 256"
proof (induction bs rule: rev_induct)
  case Nil
  have "unat w < 256" using unsigned_less [of w, where ?'a = nat] by simp
  then show ?case by simp
next
  case (snoc b bs)
  have "unat (shift_all w (bs @ [b])) = (2 * ((unat w * 2 ^ length bs + bits_value bs) mod 256) + of_bool b) mod 256"
    by (simp only: shift_all_snoc unat_shift_in snoc.IH)
  also have "\<dots> = (2 * (unat w * 2 ^ length bs + bits_value bs) + of_bool b) mod 256"
    by (rule double_mod_256)
  also have "\<dots> = (unat w * 2 ^ length (bs @ [b]) + bits_value (bs @ [b])) mod 256"
    by (simp add: algebra_simps)
  finally show ?case .
qed

lemma unat_pack: "length bs \<le> 8 \<Longrightarrow> unat (pack bs) = bits_value bs"
proof -
  assume "length bs \<le> 8"
  then have "(2::nat) ^ length bs \<le> 2 ^ 8" by (intro power_increasing) simp_all
  with bits_value_bound [of bs] have "bits_value bs < 256" by simp
  then show ?thesis by (simp add: pack_def unat_shift_all)
qed

lemma shift_all_eight: "length bs = 8 \<Longrightarrow> shift_all w bs = pack bs"
proof -
  assume 8: "length bs = 8"
  have "unat (shift_all w bs) = unat (pack bs)"
    by (simp add: unat_shift_all pack_def 8)
  then show ?thesis by (simp only: word_unat_eq_iff)
qed

lemma printf_02x_byte:
  assumes "v < 256"
  shows "printf_02x v = [hex_digit (v div 16), hex_digit (v mod 16)]"
proof (cases "v < 16")
  case True
  then show ?thesis
    by (simp add: printf_02x_def hex_digits.simps [of v] hex_digit_def)
next
  case False
  with assms have "v div 16 < 16" by simp
  then show ?thesis
    using False
    by (simp add: printf_02x_def hex_digits.simps [of v] hex_digits.simps [of "v div 16"])
qed

lemma hex_value_digit: "d < 16 \<Longrightarrow> hex_value (hex_digit d) = d"
proof -
  assume "d < 16"
  then have "d \<in> {0, 1, 2, 3, 4, 5, 6, 7, 8, 9, 10, 11, 12, 13, 14, 15}"
    by simp arith
  then show ?thesis
    by (auto simp: hex_value_def hex_digit_def)
qed

lemma unhex_byte:
  assumes "v < 256"
  shows "unhex (printf_02x v @ CHR '' '' # rest) = v # unhex rest"
proof -
  from assms have "v div 16 < 16" "v mod 16 < 16" by simp_all
  then show ?thesis
    by (simp add: printf_02x_byte [OF assms] hex_value_digit)
qed

lemma bit_bits_value: "k < length bs \<Longrightarrow> bit (bits_value bs) k = rev bs ! k"
proof (induction bs arbitrary: k rule: rev_induct)
  case Nil
  then show ?case by simp
next
  case (snoc b bs)
  show ?case
  proof (cases k)
    case 0
    then show ?thesis by (simp add: bit_0)
  next
    case (Suc m)
    with snoc.prems have "m < length bs" by simp
    from snoc.IH [OF this] show ?thesis
      by (simp add: Suc bit_Suc)
  qed
qed

lemma byte_bits_value:
  assumes "length bs = 8"
  shows "byte_bits (bits_value bs) = bs"
proof (rule nth_equalityI)
  show "length (byte_bits (bits_value bs)) = length bs"
    by (simp add: byte_bits_def assms)
next
  fix k assume "k < length (byte_bits (bits_value bs))"
  then have k: "k < 8" by (simp add: byte_bits_def)
  then have "byte_bits (bits_value bs) ! k = bit (bits_value bs) (7 - k)"
    by (simp add: byte_bits_def)
  also have "\<dots> = rev bs ! (7 - k)"
    using k by (intro bit_bits_value) (simp add: assms)
  also have "\<dots> = bs ! k"
    using k by (simp add: rev_nth assms)
  finally show "byte_bits (bits_value bs) ! k = bs ! k" .
qed

lemma hex_line_Nil [simp]: "hex_line [] = []"
  by (simp add: hex_line.simps)

lemma hex_line_step:
  "bs \<noteq> [] \<Longrightarrow>
   hex_line bs = printf_02x (unat (pack (take 8 (bs @ replicate 7 False)))) @ '' '' @ hex_line (drop 8 bs)"
  by (subst hex_line.simps) simp

lemma decode_hex_line:
  "decode_line (hex_line bs) = bs @ replicate ((8 - length bs mod 8) mod 8) False"
proof (induction bs rule: hex_line.induct)
  case (1 bs)
  show ?case
  proof (cases "bs = []")
    case True
    then show ?thesis by (simp add: decode_line_def)
  next
    case False
    define g where "g = take 8 (bs @ replicate 7 False)"
    have lg: "length g = 8" using False by (cases bs) (simp_all add: g_def)
    then have v: "unat (pack g) = bits_value g" by (simp add: unat_pack)
    have b: "bits_value g < 256"
      using bits_value_bound [of g] unfolding lg by simp
    have IH: "decode_line (hex_line (drop 8 bs))
               = drop 8 bs @ replicate ((8 - length (drop 8 bs) mod 8) mod 8) False"
      using 1 False by simp
    have "hex_line bs = printf_02x (bits_value g) @ CHR '' '' # hex_line (drop 8 bs)"
      by (simp only: hex_line_step [OF False] g_def [symmetric] v) simp
    then have "decode_line (hex_line bs) = g @ decode_line (hex_line (drop 8 bs))"
      using b by (simp add: decode_line_def unhex_byte byte_bits_value lg)
    also have "\<dots> = bs @ replicate ((8 - length bs mod 8) mod 8) False"
    proof (cases "8 \<le> length bs")
      case True
      then have "(length bs - 8) mod 8 = length bs mod 8"
        by (simp add: le_mod_geq)
      with True show ?thesis by (simp add: IH g_def)
    next
      case False
      then have l: "length bs < 8" by simp
      then have "length bs mod 8 = length bs" by simp
      moreover have "0 < length bs" using \<open>bs \<noteq> []\<close> by simp
      moreover have "min (8 - length bs) 7 = 8 - length bs"
        using \<open>bs \<noteq> []\<close> by (cases bs) simp_all
      ultimately show ?thesis using l by (simp add: decode_line_def g_def)
    qed
    finally show ?thesis .
  qed
qed

lemma full_bytes: "n mod 8 = 0 \<Longrightarrow> 8 * (n div 8) = n" for n :: nat
  by presburger

lemma hex_line_append:
  "length xs mod 8 = 0 \<Longrightarrow> hex_line (xs @ ys) = hex_line xs @ hex_line ys"
proof (induction xs rule: hex_line.induct)
  case (1 xs)
  show ?case
  proof (cases "xs = []")
    case True
    then show ?thesis by simp
  next
    case False
    with "1.prems" have l: "8 \<le> length xs"
      by (cases "length xs < 8") simp_all
    then have "(length xs - 8) mod 8 = length xs mod 8"
      by (simp add: le_mod_geq)
    then have m: "length (drop 8 xs) mod 8 = 0"
      using "1.prems" by simp
    have IH: "hex_line (drop 8 xs @ ys) = hex_line (drop 8 xs) @ hex_line ys"
      using "1.IH" [OF False m] .
    have ne: "xs @ ys \<noteq> []" using False by simp
    have t: "take 8 ((xs @ ys) @ replicate 7 False) = take 8 xs"
      "take 8 (xs @ ys @ replicate 7 False) = take 8 xs"
      "take 8 (xs @ replicate 7 False) = take 8 xs" "drop 8 (xs @ ys) = drop 8 xs @ ys"
      using l by simp_all
    show ?thesis
      by (simp only: hex_line_step [OF ne] hex_line_step [OF False] t IH append_assoc)
  qed
qed

lemma hex_line_eight:
  "length g = 8 \<Longrightarrow> hex_line g = printf_02x (unat (pack g)) @ '' ''"
  by (subst hex_line.simps) auto

lemma bits_value_zeros: "bits_value (p @ replicate m False) = bits_value p * 2 ^ m"
proof (induction m)
  case 0
  then show ?case by simp
next
  case (Suc m)
  have "p @ replicate (Suc m) False = (p @ replicate m False) @ [False]"
    by (simp add: replicate_append_same)
  then show ?case
    by (simp only: bits_value_snoc Suc.IH) simp
qed

lemma hex_line_partial:
  assumes "p \<noteq> []" and "length p < 8"
  shows "hex_line p = printf_02x (unat (pack p) * 2 ^ (8 - length p)) @ '' ''"
proof -
  have "min (8 - length p) 7 = 8 - length p"
    using assms(1) by (cases p) simp_all
  then have t: "take 8 (p @ replicate 7 False) = p @ replicate (8 - length p) False"
    using assms(2) by simp
  have "length (p @ replicate (8 - length p) False) \<le> 8"
    using assms(2) by simp
  then have "unat (pack (p @ replicate (8 - length p) False)) = bits_value p * 2 ^ (8 - length p)"
    by (simp only: unat_pack bits_value_zeros)
  moreover have "unat (pack p) = bits_value p"
    using assms(2) by (simp add: unat_pack)
  ultimately have v: "unat (pack (p @ replicate (8 - length p) False)) = unat (pack p) * 2 ^ (8 - length p)"
    by simp
  have d: "drop 8 p = []" using assms(2) by simp
  show ?thesis
    by (simp only: hex_line_step [OF assms(1)] t d hex_line_Nil v append_Nil2)
qed

lemma split_done_pending: "take (8 * (length bs div 8)) bs @ pending bs = bs"
  by (simp add: pending_def)

lemma length_pending [simp]: "length (pending bs) = length bs mod 8"
  by (simp add: pending_def minus_mult_div_eq_mod)

lemma hex_line_done_pending: "hex_line bs = hex_done bs @ hex_line (pending bs)"
proof -
  have "length (take (8 * (length bs div 8)) bs) mod 8 = 0"
    by simp
  from hex_line_append [OF this, of "pending bs"] show ?thesis
    by (simp only: split_done_pending hex_done_def)
qed

lemma hex_line_end:
  "hex_line bs = hex_done bs @
     (if length bs mod 8 = 0 then []
      else printf_02x (unat (pack (pending bs)) * 2 ^ (8 - length bs mod 8)) @ '' '')"
proof (cases "length bs mod 8 = 0")
  case True
  then have "pending bs = []" by (simp add: pending_def full_bytes)
  then show ?thesis using True hex_line_done_pending [of bs] by simp
next
  case False
  then have "0 < length (pending bs)" by simp
  then have "pending bs \<noteq> []" by (cases "pending bs") simp_all
  moreover have "length (pending bs) < 8" by simp
  ultimately have "hex_line (pending bs)
      = printf_02x (unat (pack (pending bs)) * 2 ^ (8 - length (pending bs))) @ '' ''"
    by (rule hex_line_partial)
  with False show ?thesis
    by (simp add: hex_line_done_pending [of bs])
qed

lemma snoc_same_byte:
  assumes "Suc (length bs) mod 8 \<noteq> 0"
  shows "hex_done (bs @ [b]) = hex_done bs" and "pending (bs @ [b]) = pending bs @ [b]"
proof -
  have q: "Suc (length bs) div 8 = length bs div 8"
    using assms by (simp add: div_Suc)
  have le: "8 * (length bs div 8) \<le> length bs" by simp
  show "hex_done (bs @ [b]) = hex_done bs" "pending (bs @ [b]) = pending bs @ [b]"
    using le by (simp_all add: hex_done_def pending_def q)
qed

lemma snoc_next_byte:
  assumes "Suc (length bs) mod 8 = 0"
  shows "hex_done (bs @ [b]) = hex_done bs @ printf_02x (unat (pack (pending bs @ [b]))) @ '' ''"
    and "pending (bs @ [b]) = []"
proof -
  have m: "length (bs @ [b]) mod 8 = 0" using assms by simp
  then show p: "pending (bs @ [b]) = []"
    using full_bytes [OF m] by (simp add: pending_def)
  have "length (pending bs @ [b]) = 8"
    using assms by (simp add: mod_Suc split: if_splits)
  then have e: "hex_line (pending bs @ [b]) = printf_02x (unat (pack (pending bs @ [b]))) @ '' ''"
    by (rule hex_line_eight)
  have "hex_done (bs @ [b]) = hex_line (bs @ [b])"
    using hex_line_done_pending [of "bs @ [b]"] by (simp add: p)
  also have "\<dots> = hex_line (take (8 * (length bs div 8)) bs @ (pending bs @ [b]))"
    by (simp only: append_assoc [symmetric] split_done_pending)
  also have "\<dots> = hex_done bs @ hex_line (pending bs @ [b])"
    by (subst hex_line_append) (simp_all add: hex_done_def)
  finally show "hex_done (bs @ [b]) = hex_done bs @ printf_02x (unat (pack (pending bs @ [b]))) @ '' ''"
    by (simp only: e)
qed

subsection \<open>One channel over a run of samples\<close>

lemma sample_ctx_nth:
  assumes "j < num_enabled_channels ctx"
  shows "sample_buf (sample_ctx logic i ctx) ! j = buf_next logic i (counted ctx) j"
    and "lines (sample_ctx logic i ctx) ! j =
           (if line_full (counted ctx) then channel_names ctx ! j @ '':''
            else line_next logic i (counted ctx) j)"
  using assms by (simp_all add: sample_ctx_def Let_def counted_def)

lemma byte_due_counted:
  assumes "spl_cnt ctx = int m"
  shows "byte_due (counted ctx) \<longleftrightarrow> Suc m mod 8 = 0"
proof -
  have "spl_cnt (counted ctx) = int (Suc m)"
    using assms by (simp add: counted_def)
  moreover have "int (Suc m) mod 8 = int (Suc m mod 8)"
    by (simp only: zmod_int) simp
  ultimately show ?thesis
    by (simp add: byte_due_def and7_mod8 del: of_nat_Suc)
qed

lemma line_full_counted:
  "line_full (counted ctx) \<longleftrightarrow> spl_cnt ctx + 1 = samples_per_line ctx"
  by (simp add: line_full_def counted_def)

lemma counted_fields [simp]:
  "sample_buf (counted ctx) = sample_buf ctx" "lines (counted ctx) = lines ctx"
  "channel_index (counted ctx) = channel_index ctx" "channel_names (counted ctx) = channel_names ctx"
  "num_enabled_channels (counted ctx) = num_enabled_channels ctx"
  by (simp_all add: counted_def)

text \<open>One more sample on a channel whose state is described by the bits so far.\<close>

lemma channel_step:
  assumes j: "j < num_enabled_channels c"
    and cnt: "spl_cnt c = int (length bs)"
    and buf: "sample_buf c ! j = shift_all (if length bs < 8 then w else 0) (pending bs)"
    and lin: "lines c ! j = l @ hex_done bs"
    and b: "b = sample_bit logic i (channel_index c ! j)"
  shows "buf_next logic i (counted c) j
           = (if Suc (length bs) mod 8 = 0 then 0
              else shift_all (if length (bs @ [b]) < 8 then w else 0) (pending (bs @ [b])))"
    and "line_next logic i (counted c) j = l @ hex_done (bs @ [b])"
proof -
  have due: "byte_due (counted c) \<longleftrightarrow> Suc (length bs) mod 8 = 0"
    using cnt by (rule byte_due_counted)
  have acc: "acc_next logic i (counted c) j = shift_in b (shift_all (if length bs < 8 then w else 0) (pending bs))"
    by (simp add: acc_next_def b buf)
  show "buf_next logic i (counted c) j
           = (if Suc (length bs) mod 8 = 0 then 0
              else shift_all (if length (bs @ [b]) < 8 then w else 0) (pending (bs @ [b])))"
  proof (cases "Suc (length bs) mod 8 = 0")
    case True
    then show ?thesis by (simp add: buf_next_def due)
  next
    case False
    then have "length bs < 8 \<longleftrightarrow> Suc (length bs) < 8"
      by (cases "length bs = 7") auto
    then show ?thesis
      using False by (simp add: buf_next_def due acc snoc_same_byte)
  qed
  show "line_next logic i (counted c) j = l @ hex_done (bs @ [b])"
  proof (cases "Suc (length bs) mod 8 = 0")
    case True
    then have "length (pending bs @ [b]) = 8"
      by (simp add: mod_Suc split: if_splits)
    then have "shift_all (if length bs < 8 then w else 0) (pending bs @ [b]) = pack (pending bs @ [b])"
      by (rule shift_all_eight)
    then have "shift_in b (shift_all (if length bs < 8 then w else 0) (pending bs)) = pack (pending bs @ [b])"
      by simp
    then show ?thesis
      using True by (simp add: line_next_def due acc lin snoc_next_byte)
  next
    case False
    then show ?thesis
      by (simp add: line_next_def due lin snoc_same_byte)
  qed
qed

lemma quiet_state:
  assumes "spl_cnt ctx = 0" and "int (length xs) < samples_per_line ctx"
    and "j < num_enabled_channels ctx"
  shows "spl_cnt (run_ctx xs ctx) = int (length xs)
       \<and> sample_buf (run_ctx xs ctx) ! j
           = shift_all (if length xs < 8 then sample_buf ctx ! j else 0) (pending (chan_bits ctx j xs))
       \<and> lines (run_ctx xs ctx) ! j = lines ctx ! j @ hex_done (chan_bits ctx j xs)"
  using assms(2)
proof (induction xs rule: rev_induct)
  case Nil
  then show ?case
    using assms(1) by (simp add: chan_bits_def pending_def hex_done_def)
next
  case (snoc x xs)
  let ?c = "run_ctx xs ctx"
  let ?bs = "chan_bits ctx j xs"
  let ?b = "sample_bit (fst x) (snd x) (channel_index ctx ! j)"
  from snoc.prems have lt: "int (length xs) < samples_per_line ctx" by simp
  note IH = snoc.IH [OF lt]
  have len: "length ?bs = length xs" by (simp add: chan_bits_def)
  have j: "j < num_enabled_channels ?c" using assms(3) by simp
  have cnt: "spl_cnt ?c = int (length ?bs)" using IH by (simp add: len)
  have buf: "sample_buf ?c ! j = shift_all (if length ?bs < 8 then sample_buf ctx ! j else 0) (pending ?bs)"
    using IH by (simp add: len)
  have lin: "lines ?c ! j = lines ctx ! j @ hex_done ?bs" using IH by simp
  have b: "?b = sample_bit (fst x) (snd x) (channel_index ?c ! j)" by simp
  note st = channel_step [OF j cnt buf lin b]
  have nf: "\<not> line_full (counted ?c)"
    using snoc.prems IH by (simp add: line_full_counted)
  have snocbits: "chan_bits ctx j (xs @ [x]) = ?bs @ [?b]"
    by (simp add: chan_bits_def)
  have run: "run_ctx (xs @ [x]) ctx = sample_ctx (fst x) (snd x) ?c"
    by (simp add: run_ctx_append)
  have 1: "spl_cnt (run_ctx (xs @ [x]) ctx) = int (length (xs @ [x]))"
    using IH snoc.prems by (simp add: run)
  have 2: "sample_buf (run_ctx (xs @ [x]) ctx) ! j
           = shift_all (if length (xs @ [x]) < 8 then sample_buf ctx ! j else 0) (pending (chan_bits ctx j (xs @ [x])))"
  proof (cases "Suc (length ?bs) mod 8 = 0")
    case True
    then have "pending (?bs @ [?b]) = []" by (rule snoc_next_byte)
    moreover have "\<not> length (xs @ [x]) < 8"
    proof -
      from True have "Suc (length xs) mod 8 = 0" by (simp only: len)
      then have "8 \<le> Suc (length xs)" by presburger
      then show ?thesis by simp
    qed
    ultimately show ?thesis
      using True by (simp only: run sample_ctx_nth(1) [OF j] st(1) snocbits) simp
  next
    case False
    then show ?thesis
      by (simp only: run sample_ctx_nth(1) [OF j] st(1) snocbits) (simp add: len)
  qed
  have 3: "lines (run_ctx (xs @ [x]) ctx) ! j = lines ctx ! j @ hex_done (chan_bits ctx j (xs @ [x]))"
    using nf by (simp only: run sample_ctx_nth(2) [OF j] st(2) snocbits) simp
  from 1 2 3 show ?case by blast
qed

subsection \<open>Whole lines and the end of the stream\<close>

lemma line_startD:
  assumes "line_start ctx" and "j < num_enabled_channels ctx"
  shows "lines ctx ! j = channel_names ctx ! j @ '':''" and "sample_buf ctx ! j = 0"
  using assms by (simp_all add: line_start_def ctx_ok_def arrays_sized_def)

lemma chan_bits_run [simp]:
  "chan_bits (run_ctx xs ctx) j ys = chan_bits ctx j ys"
  "chan_bits (sample_ctx logic i ctx) j ys = chan_bits ctx j ys"
  by (simp_all add: chan_bits_def)

lemma length_chan_bits [simp]: "length (chan_bits ctx j xs) = length xs"
  by (simp add: chan_bits_def)

lemma chan_bits_append: "chan_bits ctx j (xs @ ys) = chan_bits ctx j xs @ chan_bits ctx j ys"
  by (simp add: chan_bits_def)

text \<open>A whole line, from the start of a line.\<close>

lemma full_line:
  assumes st: "line_start ctx" and len: "int (length g) = samples_per_line ctx"
  shows "run_text g ctx = block ctx g" and "line_start (run_ctx g ctx)"
proof -
  let ?n = "num_enabled_channels ctx"
  from st have ok: "ctx_ok ctx" and z: "spl_cnt ctx = 0" and tr: "trigger ctx \<le> - 1"
    and d8: "8 dvd samples_per_line ctx"
    by (simp_all add: line_start_def)
  from ok z have "0 < samples_per_line ctx" by (simp add: ctx_ok_def)
  with len have "g \<noteq> []" by auto
  then obtain xs x where g: "g = xs @ [x]" by (cases g rule: rev_cases) auto
  let ?c = "run_ctx xs ctx"
  have lt: "int (length xs) < samples_per_line ctx" using len by (simp add: g)
  have lt': "spl_cnt ctx + int (length xs) < samples_per_line ctx" using lt z by simp
  note q = run_quiet [OF lt']
  have full: "line_full (counted ?c)"
    using q len z by (simp add: line_full_counted g)
  have d8': "Suc (length xs) mod 8 = 0"
  proof -
    have "8 dvd int (Suc (length xs))" using d8 len by (simp add: g)
    then have "8 dvd Suc (length xs)" by presburger
    then show ?thesis by presburger
  qed
  have due: "byte_due (counted ?c)"
    using q z byte_due_counted [of ?c "length xs"] d8' by simp
  have nocaret: "\<not> caret_due (counted ?c)"
    using q tr by (simp add: caret_due_def counted_def)
  have ln: "line_next (fst x) (snd x) (counted ?c) j
              = channel_names ctx ! j @ '':'' @ hex_line (chan_bits ctx j g)" if j: "j < ?n" for j
  proof -
    note s = quiet_state [OF z lt j]
    have j': "j < num_enabled_channels ?c" using j by simp
    have cnt: "spl_cnt ?c = int (length (chan_bits ctx j xs))" using s by simp
    have buf: "sample_buf ?c ! j
        = shift_all (if length (chan_bits ctx j xs) < 8 then sample_buf ctx ! j else 0) (pending (chan_bits ctx j xs))"
      using s by simp
    have lin: "lines ?c ! j = lines ctx ! j @ hex_done (chan_bits ctx j xs)" using s by simp
    have b: "sample_bit (fst x) (snd x) (channel_index ctx ! j) = sample_bit (fst x) (snd x) (channel_index ?c ! j)"
      by simp
    have bits: "chan_bits ctx j g = chan_bits ctx j xs @ [sample_bit (fst x) (snd x) (channel_index ctx ! j)]"
      by (simp add: g chan_bits_def)
    have "length (chan_bits ctx j g) mod 8 = 0" using d8' by (simp add: g)
    then have "hex_done (chan_bits ctx j g) = hex_line (chan_bits ctx j g)"
      using hex_line_end [of "chan_bits ctx j g"] by simp
    then show ?thesis
      using channel_step(2) [OF j' cnt buf lin b] line_startD(1) [OF st j] by (simp add: bits)
  qed
  have "concat (map (\<lambda>j. line_next (fst x) (snd x) (counted ?c) j @ [CHR 0x0A]) [0..<?n])
          = concat (map (\<lambda>j. channel_names ctx ! j @ '':'' @ hex_line (chan_bits ctx j g) @ [CHR 0x0A]) [0..<?n])"
    by (rule arg_cong [where f = concat], rule map_cong) (simp_all add: ln)
  then have "sample_text (fst x) (snd x) ?c = block ctx g"
    using full nocaret by (simp add: sample_text_def block_def Let_def)
  then show "run_text g ctx = block ctx g"
    using q by (simp add: g run_text_append)
  let ?r = "run_ctx g ctx"
  have r: "?r = sample_ctx (fst x) (snd x) ?c" by (simp add: g run_ctx_append)
  have okr: "ctx_ok ?r" using ok by (rule ctx_ok_run)
  have "spl_cnt ?r = 0" using full by (simp add: r line_full_counted)
  moreover have "trigger ?r \<le> - 1" using q tr by (simp add: r sample_ctx_trigger)
  moreover have "lines ?r = map (\<lambda>name. name @ '':'') (channel_names ?r)"
  proof (rule nth_equalityI)
    show "length (lines ?r) = length (map (\<lambda>name. name @ '':'') (channel_names ?r))"
      using okr by (simp add: ctx_ok_def arrays_sized_def)
  next
    fix j assume "j < length (lines ?r)"
    then have j: "j < ?n" using okr by (simp add: ctx_ok_def arrays_sized_def)
    then have j': "j < num_enabled_channels ?c" by simp
    have "j < length (channel_names ctx)" using j ok by (simp add: ctx_ok_def arrays_sized_def)
    then show "lines ?r ! j = map (\<lambda>name. name @ '':'') (channel_names ?r) ! j"
      using full by (simp add: r sample_ctx_nth(2) [OF j'])
  qed
  moreover have "sample_buf ?r = replicate (num_enabled_channels ?r) 0"
  proof (rule nth_equalityI)
    show "length (sample_buf ?r) = length (replicate (num_enabled_channels ?r) (0 :: 8 word))"
      using okr by (simp add: ctx_ok_def arrays_sized_def)
  next
    fix j assume "j < length (sample_buf ?r)"
    then have j: "j < ?n" using okr by (simp add: ctx_ok_def arrays_sized_def)
    then have j': "j < num_enabled_channels ?c" by simp
    show "sample_buf ?r ! j = replicate (num_enabled_channels ?r) 0 ! j"
      using due j by (simp add: r sample_ctx_nth(1) [OF j'] buf_next_def)
  qed
  ultimately show "line_start ?r"
    using okr d8 by (simp add: line_start_def)
qed

text \<open>A line that is not full, and the end of the stream behind it.\<close>

lemma part_line_end:
  assumes st: "line_start ctx" and len: "int (length g) < samples_per_line ctx"
  shows "run_text g ctx = []" and "end_text (run_ctx g ctx) = (if g = [] then [] else block ctx g)"
proof -
  let ?n = "num_enabled_channels ctx" and ?c = "run_ctx g ctx"
  from st have z: "spl_cnt ctx = 0" by (simp add: line_start_def)
  have lt': "spl_cnt ctx + int (length g) < samples_per_line ctx" using len z by simp
  note q = run_quiet [OF lt']
  show "run_text g ctx = []" using q by simp
  have cnt: "spl_cnt ?c = int (length g)" using q z by simp
  have m: "spl_cnt ?c AND 7 = int (length g mod 8)"
    by (simp add: cnt and7_mod8 zmod_int)
  have el: "end_line ?c j = channel_names ctx ! j @ '':'' @ hex_line (chan_bits ctx j g)" if j: "j < ?n" for j
  proof -
    note s = quiet_state [OF z len j]
    have buf: "sample_buf ?c ! j = pack (pending (chan_bits ctx j g))"
      using s line_startD(2) [OF st j] by (simp add: pack_def)
    have lin: "lines ?c ! j = channel_names ctx ! j @ '':'' @ hex_done (chan_bits ctx j g)"
      using s line_startD(1) [OF st j] by simp
    have r8: "length g mod 8 < 8" by simp
    then have "nat (8 - int (length g mod 8)) = 8 - length g mod 8" by linarith
    then have "nat (push_bit (nat (8 - int (length g mod 8))) (uint (pack (pending (chan_bits ctx j g)))))
           = unat (pack (pending (chan_bits ctx j g))) * 2 ^ (8 - length g mod 8)"
      by (simp add: push_bit_eq_mult nat_mult_distrib nat_power_eq)
    then show ?thesis
      using hex_line_end [of "chan_bits ctx j g"]
      by (simp add: end_line_def m buf lin)
  qed
  have "concat (map (\<lambda>j. end_line ?c j @ [CHR 0x0A]) [0..<?n])
          = concat (map (\<lambda>j. channel_names ctx ! j @ '':'' @ hex_line (chan_bits ctx j g) @ [CHR 0x0A]) [0..<?n])"
    by (rule arg_cong [where f = concat], rule map_cong) (simp_all add: el)
  then show "end_text ?c = (if g = [] then [] else block ctx g)"
    by (simp add: end_text_def cnt block_def)
qed

subsection \<open>Streams of samples\<close>

lemma block_run [simp]: "block (run_ctx xs ctx) g = block ctx g"
  by (simp add: block_def)

lemma chunks_Nil [simp]: "chunks k [] = []"
  by (simp add: chunks.simps)

lemma chunks_step: "0 < k \<Longrightarrow> xs \<noteq> [] \<Longrightarrow> chunks k xs = take k xs # chunks k (drop k xs)"
  by (subst chunks.simps) simp

lemma stream_text:
  assumes "line_start ctx" and "int W = samples_per_line ctx"
  shows "run_text S ctx @ end_text (run_ctx S ctx) = concat (map (block ctx) (chunks W S))"
  using assms
proof (induction W S arbitrary: ctx rule: chunks.induct)
  case (1 W S)
  from "1.prems" have W: "0 < W"
    by (auto simp: line_start_def ctx_ok_def)
  show ?case
  proof (cases "S = []")
    case True
    then show ?thesis
      using "1.prems" by (simp add: end_text_def line_start_def)
  next
    case False
    show ?thesis
    proof (cases "length S < W")
      case True
      then have "int (length S) < samples_per_line ctx" using "1.prems"(2) by linarith
      from part_line_end [OF "1.prems"(1) this] True False W show ?thesis
        by (simp add: chunks_step)
    next
      case ge: False
      let ?g = "take W S" and ?r = "drop W S"
      have lg: "int (length ?g) = samples_per_line ctx"
        using ge "1.prems"(2) by simp
      note fl = full_line [OF "1.prems"(1) lg]
      have W': "int W = samples_per_line (run_ctx ?g ctx)"
        using "1.prems"(2) by simp
      have "\<not> (W = 0 \<or> S = [])" using W False by simp
      from "1.IH" [OF this fl(2) W']
      have IH: "run_text ?r (run_ctx ?g ctx) @ end_text (run_ctx ?r (run_ctx ?g ctx))
                  = concat (map (block ctx) (chunks W ?r))"
        by simp
      have "run_text S ctx @ end_text (run_ctx S ctx)
              = run_text (?g @ ?r) ctx @ end_text (run_ctx (?g @ ?r) ctx)"
        by simp
      also have "\<dots> = block ctx ?g @ run_text ?r (run_ctx ?g ctx) @ end_text (run_ctx ?r (run_ctx ?g ctx))"
        by (simp only: run_text_append run_ctx_append fl(1) append_assoc)
      also have "\<dots> = concat (map (block ctx) (chunks W S))"
        using W False by (simp add: IH chunks_step [of W S])
      finally show ?thesis .
    qed
  qed
qed

lemma decode_stream:
  assumes "8 dvd W" and "0 < W"
  shows "concat (map (\<lambda>g. decode_line (hex_line (chan_bits ctx j g))) (chunks W S))
           = chan_bits ctx j S @ replicate ((8 - length S mod 8) mod 8) False"
  using assms
proof (induction W S rule: chunks.induct)
  case (1 W S)
  show ?case
  proof (cases "S = []")
    case True
    then show ?thesis by (simp add: chan_bits_def)
  next
    case False
    note step = chunks_step [OF "1.prems"(2) False]
    show ?thesis
    proof (cases "length S \<le> W")
      case True
      then show ?thesis
        by (simp add: step decode_hex_line)
    next
      case gt: False
      then have lt: "length (take W S) = W" by simp
      from "1.prems"(1) have W8: "W mod 8 = 0" by presburger
      have "\<not> (W = 0 \<or> S = [])" using "1.prems"(2) False by simp
      from "1.IH" [OF this "1.prems"]
      have IH: "concat (map (\<lambda>g. decode_line (hex_line (chan_bits ctx j g))) (chunks W (drop W S)))
                 = chan_bits ctx j (drop W S) @ replicate ((8 - length (drop W S) mod 8) mod 8) False" .
      have "(length S - W) mod 8 = length S mod 8"
        using gt "1.prems"(1) by (metis W8 le_cases mod_0 mod_add_right_eq add.right_neutral le_add_diff_inverse2 not_le_imp_less less_imp_le)
      then have pad: "(8 - length (drop W S) mod 8) mod 8 = (8 - length S mod 8) mod 8"
        by simp
      have bits: "chan_bits ctx j (take W S) @ chan_bits ctx j (drop W S) = chan_bits ctx j S"
        by (simp add: chan_bits_append [symmetric])
      have "length (chan_bits ctx j (take W S)) mod 8 = 0"
        by (simp only: length_chan_bits lt W8)
      then have "decode_line (hex_line (chan_bits ctx j (take W S))) = chan_bits ctx j (take W S)"
        by (simp only: decode_hex_line) simp
      then show ?thesis
        by (simp only: step list.map concat.simps IH pad append_assoc [symmetric] bits)
    qed
  qed
qed

subsection \<open>Streams of packets\<close>

lemma header_irrelevant:
  "byte_due (c\<lparr>header := h\<rparr>) = byte_due c"
  "line_full (c\<lparr>header := h\<rparr>) = line_full c"
  "caret_due (c\<lparr>header := h\<rparr>) = caret_due c"
  "acc_next logic i (c\<lparr>header := h\<rparr>) = acc_next logic i c"
  by (simp_all add: fun_eq_iff acc_next_def byte_due_def line_full_def caret_due_def)

lemma header_irrelevant_next:
  "buf_next logic i (c\<lparr>header := h\<rparr>) = buf_next logic i c"
  "line_next logic i (c\<lparr>header := h\<rparr>) = line_next logic i c"
  by (simp_all add: fun_eq_iff buf_next_def line_next_def header_irrelevant)

lemma sample_header:
  "sample_ctx logic i (ctx\<lparr>header := h\<rparr>) = (sample_ctx logic i ctx)\<lparr>header := h\<rparr>"
  "sample_text logic i (ctx\<lparr>header := h\<rparr>) = sample_text logic i ctx"
proof -
  have c: "counted (ctx\<lparr>header := h\<rparr>) = (counted ctx)\<lparr>header := h\<rparr>"
    by (simp add: counted_def)
  show "sample_ctx logic i (ctx\<lparr>header := h\<rparr>) = (sample_ctx logic i ctx)\<lparr>header := h\<rparr>"
    by (simp add: sample_ctx_def Let_def c header_irrelevant header_irrelevant_next cong: if_cong)
  show "sample_text logic i (ctx\<lparr>header := h\<rparr>) = sample_text logic i ctx"
    by (simp add: sample_text_def Let_def c header_irrelevant header_irrelevant_next cong: if_cong)
qed

lemma run_header:
  "run_ctx xs (ctx\<lparr>header := h\<rparr>) = (run_ctx xs ctx)\<lparr>header := h\<rparr>"
  "run_text xs (ctx\<lparr>header := h\<rparr>) = run_text xs ctx"
  by (induction xs arbitrary: ctx) (simp_all add: sample_header)

lemma end_text_header: "end_text (ctx\<lparr>header := h\<rparr>) = end_text ctx"
proof -
  have "end_line (ctx\<lparr>header := h\<rparr>) = end_line ctx"
    by (simp add: end_line_def fun_eq_iff)
  then show ?thesis by (simp add: end_text_def)
qed

lemma packet_ok_run [simp]: "packet_ok l (run_ctx xs ctx) = packet_ok l ctx"
  by (simp add: packet_ok_def)

lemma feed_end:
  assumes "ctx_ok ctx"
  shows "fed_text (feed (Some \<lparr>sdi = Some dev, param = p, internal = Some ctx\<rparr>) [SR_DF_END])
           = Some (end_text ctx)"
proof -
  have "length (lines ctx) = num_enabled_channels ctx"
    using assms by (simp add: ctx_ok_def arrays_sized_def)
  from receive_switch_end [OF this] show ?thesis
    by (simp add: receive_initialised fed_text_def end_text_def)
qed

lemma feed_stream:
  assumes "ctx_ok ctx" and "list_all (\<lambda>l. packet_ok l ctx) ls"
  shows "fed_text (feed (Some \<lparr>sdi = Some dev, param = p, internal = Some ctx\<rparr>)
                        (map SR_DF_LOGIC ls @ [SR_DF_END]))
           = Some ((if ls = [] then [] else buffered_header ctx)
                   @ run_text (concat (map packet_samples ls)) ctx
                   @ end_text (run_ctx (concat (map packet_samples ls)) ctx))"
  using assms
proof (induction ls arbitrary: ctx)
  case Nil
  then show ?case using feed_end [of ctx dev p] by simp
next
  case (Cons l ls)
  let ?c0 = "ctx\<lparr>header := None\<rparr>"
  let ?c1 = "run_ctx (packet_samples l) ?c0"
  from Cons.prems have ok: "ctx_ok ctx" and pl: "packet_ok l ctx" and pls: "list_all (\<lambda>l. packet_ok l ctx) ls"
    by simp_all
  have r: "receive (Some \<lparr>sdi = Some dev, param = p, internal = Some ctx\<rparr>) (SR_DF_LOGIC l)
            = Some (Inr (SR_OK, Some \<lparr>sdi = Some dev, param = p, internal = Some ?c1\<rparr>,
                         Some (buffered_header ctx @ run_text (packet_samples l) ?c0)))"
    using receive_switch_logic [OF ok pl] by (simp add: receive_initialised)
  have ok1: "ctx_ok ?c1" using ok by (intro ctx_ok_run) simp
  have pls1: "list_all (\<lambda>l. packet_ok l ?c1) ls" using pls by simp
  have h1: "buffered_header ?c1 = []" by (simp add: buffered_header_def)
  have IH: "fed_text (feed (Some \<lparr>sdi = Some dev, param = p, internal = Some ?c1\<rparr>)
                        (map SR_DF_LOGIC ls @ [SR_DF_END]))
           = Some (run_text (concat (map packet_samples ls)) ?c1
                   @ end_text (run_ctx (concat (map packet_samples ls)) ?c1))"
    using Cons.IH [OF ok1 pls1] by (simp add: h1)
  have "fed_text (feed (Some \<lparr>sdi = Some dev, param = p, internal = Some ctx\<rparr>)
                        (map SR_DF_LOGIC (l # ls) @ [SR_DF_END]))
         = Some (buffered_header ctx @ run_text (packet_samples l) ?c0
                 @ run_text (concat (map packet_samples ls)) ?c1
                 @ end_text (run_ctx (concat (map packet_samples ls)) ?c1))"
    using IH by (auto simp: r fed_text_def split: option.splits sum.splits)
  then show ?case
    by (simp add: run_text_append run_ctx_append run_header end_text_header)
qed

lemma initial_context_start:
  assumes "0 < W" and "8 dvd W" and "W \<le> 1908874353"
  shows "line_start (initial_context pkg rate_s dev (int W))"
proof -
  have "8 dvd int W" using assms(2) by presburger
  then show ?thesis
    using assms
    by (simp add: line_start_def ctx_ok_def arrays_sized_def initial_context_def o_def)
qed

subsection \<open>The end-of-stream flush of a partial byte\<close>

lemma strtoul_8_12:
  "ulong_to_int (strtoul ''8'') = 8" "ulong_to_int (strtoul ''12'') = 12"
  by (simp_all add: strtoul_def strip_sign_def isspace_def isdigit_def digit_value_def ulong_to_int_def)

lemma receive_end:
  assumes "length (lines ctx) = num_enabled_channels ctx" and "spl_cnt ctx \<noteq> 0"
  shows "receive (Some \<lparr>sdi = Some dev, param = p, internal = Some ctx\<rparr>) SR_DF_END =
           Some (Inr (SR_OK,
             Some \<lparr>sdi = Some dev, param = p,
                   internal = Some (ctx\<lparr>lines := map (end_line ctx) [0..<num_enabled_channels ctx]\<rparr>)\<rparr>,
             Some (end_text ctx)))"
  using receive_switch_end [OF assms(1)] assms(2)
  by (simp add: receive_initialised end_text_def)

lemma end_line_shifted:
  assumes "0 < spl_cnt ctx" and "spl_cnt ctx mod 8 \<noteq> 0"
  shows "end_line ctx i
           = lines ctx ! i @ printf_02x (unat (sample_buf ctx ! i) * 2 ^ (8 - nat (spl_cnt ctx mod 8))) @ '' ''"
proof -
  have "0 \<le> spl_cnt ctx mod 8" "spl_cnt ctx mod 8 < 8" by simp_all
  then have "nat (8 - spl_cnt ctx mod 8) = 8 - nat (spl_cnt ctx mod 8)" by linarith
  then show ?thesis
    using assms(2)
    by (simp add: end_line_def and7_mod8 push_bit_eq_mult nat_mult_distrib nat_power_eq)
qed

subsection \<open>Carried bits\<close>

lemma chan_bits_header [simp]: "chan_bits (ctx\<lparr>header := h\<rparr>) j xs = chan_bits ctx j xs"
  by (simp add: chan_bits_def)

lemma byte_due_counted_int:
  assumes "0 \<le> spl_cnt ctx"
  shows "byte_due (counted ctx) \<longleftrightarrow> (spl_cnt ctx + 1) mod 8 = 0"
  using assms by (auto simp: byte_due_def counted_def and7_mod8)

text \<open>
  What a sample packet leaves in the accumulator of channel \<open>j\<close> and in its line: for a
  packet of one sample, for eight samples from the start of a line, and for fewer than
  eight samples from the start of a line with the end-of-stream flush behind them.
\<close>

lemma accumulator_after_packet:
  assumes ok: "ctx_ok ctx" and pk: "packet_ok logic ctx" and j: "j < num_enabled_channels ctx"
    and c': "c' = run_ctx (packet_samples logic) (ctx\<lparr>header := None\<rparr>)"
    and bits: "bits = chan_bits ctx j (packet_samples logic)"
  shows "receive (Some \<lparr>sdi = Some dev, param = p, internal = Some ctx\<rparr>) (SR_DF_LOGIC logic) =
           Some (Inr (SR_OK, Some \<lparr>sdi = Some dev, param = p, internal = Some c'\<rparr>,
                      Some (buffered_header ctx @ run_text (packet_samples logic) (ctx\<lparr>header := None\<rparr>))))
       \<and> (length bits = 1 \<longrightarrow>
            sample_buf c' ! j = (if (spl_cnt ctx + 1) mod 8 = 0 then 0
                                 else shift_in (hd bits) (sample_buf ctx ! j))
            \<and> (spl_cnt ctx + 1 = samples_per_line ctx \<longrightarrow>
                 lines c' ! j = channel_names ctx ! j @ '':'' \<and> spl_cnt c' = 0))
       \<and> (spl_cnt ctx = 0 \<and> length bits = 8 \<and> 8 < samples_per_line ctx \<longrightarrow>
            lines c' ! j = lines ctx ! j @ printf_02x (unat (pack bits)) @ '' '' \<and> sample_buf c' ! j = 0)
       \<and> (spl_cnt ctx = 0 \<and> 0 < length bits \<and> length bits < 8 \<and> int (length bits) < samples_per_line ctx \<longrightarrow>
            sample_buf c' ! j = shift_all (sample_buf ctx ! j) bits
            \<and> end_line c' j = lines ctx ! j
                 @ printf_02x (unat (shift_all (sample_buf ctx ! j) bits) * 2 ^ (8 - length bits)) @ '' '')"
proof -
  let ?c0 = "ctx\<lparr>header := None\<rparr>" and ?S = "packet_samples logic"
  have j0: "j < num_enabled_channels ?c0" using j by simp
  have lb: "length bits = length ?S" by (simp add: bits)
  have 1: "receive (Some \<lparr>sdi = Some dev, param = p, internal = Some ctx\<rparr>) (SR_DF_LOGIC logic) =
           Some (Inr (SR_OK, Some \<lparr>sdi = Some dev, param = p, internal = Some c'\<rparr>,
                      Some (buffered_header ctx @ run_text ?S ?c0)))"
    using receive_switch_logic [OF ok pk] by (simp add: receive_initialised c')
  have 2: "sample_buf c' ! j = (if (spl_cnt ctx + 1) mod 8 = 0 then 0
                                 else shift_in (hd bits) (sample_buf ctx ! j))
            \<and> (spl_cnt ctx + 1 = samples_per_line ctx \<longrightarrow>
                 lines c' ! j = channel_names ctx ! j @ '':'' \<and> spl_cnt c' = 0)"
    if "length bits = 1"
  proof -
    from that lb obtain x where S: "?S = [x]"
      by (cases ?S) auto
    have c1: "c' = sample_ctx (fst x) (snd x) ?c0" by (simp add: c' S)
    have hb: "hd bits = sample_bit (fst x) (snd x) (channel_index ctx ! j)"
      by (simp add: bits S chan_bits_def)
    have "0 \<le> spl_cnt ?c0" using ok by (simp add: ctx_ok_def)
    from byte_due_counted_int [OF this]
    have due: "byte_due (counted ?c0) \<longleftrightarrow> (spl_cnt ctx + 1) mod 8 = 0" by simp
    have "sample_buf c' ! j = (if (spl_cnt ctx + 1) mod 8 = 0 then 0
                                 else shift_in (hd bits) (sample_buf ctx ! j))"
      by (simp add: c1 sample_ctx_nth(1) [OF j0] buf_next_def due acc_next_def hb)
    moreover have "lines c' ! j = channel_names ctx ! j @ '':'' \<and> spl_cnt c' = 0"
      if "spl_cnt ctx + 1 = samples_per_line ctx"
      using that by (simp add: c1 sample_ctx_nth(2) [OF j0] line_full_counted)
    ultimately show ?thesis by blast
  qed
  have 3: "lines c' ! j = lines ctx ! j @ printf_02x (unat (pack bits)) @ '' '' \<and> sample_buf c' ! j = 0"
    if "spl_cnt ctx = 0" "length bits = 8" "8 < samples_per_line ctx"
  proof -
    have z: "spl_cnt ?c0 = 0" using that(1) by simp
    have lt: "int (length ?S) < samples_per_line ?c0" using that(2,3) lb by simp
    note s = quiet_state [OF z lt j0]
    have "length bits mod 8 = 0" using that(2) by simp
    then have hd: "hex_done bits = hex_line bits"
      using hex_line_end [of bits] by simp
    have pe: "pending bits = []" using that(2) by (simp add: pending_def)
    show ?thesis
      using s that(2) lb by (simp add: c' bits [symmetric] hd hex_line_eight pe)
  qed
  have 4: "sample_buf c' ! j = shift_all (sample_buf ctx ! j) bits
            \<and> end_line c' j = lines ctx ! j
                 @ printf_02x (unat (shift_all (sample_buf ctx ! j) bits) * 2 ^ (8 - length bits)) @ '' ''"
    if "spl_cnt ctx = 0" "0 < length bits" "length bits < 8" "int (length bits) < samples_per_line ctx"
  proof -
    have z: "spl_cnt ?c0 = 0" using that(1) by simp
    have lt: "int (length ?S) < samples_per_line ?c0" using that(4) lb by simp
    note s = quiet_state [OF z lt j0]
    have pb: "pending bits = bits" "hex_done bits = []"
      using that(3) by (simp_all add: pending_def hex_done_def)
    have sb: "sample_buf c' ! j = shift_all (sample_buf ctx ! j) bits"
      using s that(3) lb by (simp add: c' bits [symmetric] pb)
    have ln: "lines c' ! j = lines ctx ! j"
      using s by (simp add: c' bits [symmetric] pb)
    have cnt: "spl_cnt c' = int (length bits)"
      using s lb by (simp add: c')
    have "0 < spl_cnt c'" "spl_cnt c' mod 8 \<noteq> 0" "nat (spl_cnt c' mod 8) = length bits"
      using that(2,3) by (simp_all add: cnt)
    then show ?thesis
      using end_line_shifted [of c' j] by (simp add: sb ln)
  qed
  from 1 2 3 4 show ?thesis by blast
qed

section \<open>Claims\<close>

subsection \<open>Trigger packets\<close>

text \<open>
  C7. On an initialised output handle a trigger packet returns \<^verbatim>\<open>SR_OK\<close> with no chunk
  (\<^verbatim>\<open>*out\<close> stays \<^verbatim>\<open>NULL\<close>); the context afterwards is the one before with \<open>trigger\<close>
  set to the current \<open>spl_cnt\<close>, whatever \<open>trigger\<close> held, and no other field differs.
\<close>

theorem trigger_packet_frame:
  "receive (Some \<lparr>sdi = Some dev, param = p, internal = Some ctx\<rparr>) SR_DF_TRIGGER =
     Some (Inr (SR_OK, Some \<lparr>sdi = Some dev, param = p, internal = Some (ctx\<lparr>trigger := spl_cnt ctx\<rparr>)\<rparr>, None))"
  by (simp add: receive_initialised receive_switch_def)

theorem trigger_packet_frame_witness:
  "receive (Some \<lparr>sdi = Some dev_A, param = None, internal = Some (ctx_A\<lparr>trigger := 1\<rparr>)\<rparr>) SR_DF_TRIGGER =
     Some (Inr (SR_OK, Some \<lparr>sdi = Some dev_A, param = None, internal = Some (ctx_A\<lparr>trigger := 3\<rparr>)\<rparr>, None))"
  using trigger_packet_frame [of dev_A None "ctx_A\<lparr>trigger := 1\<rparr>"]
  by (simp add: ctx_A_def)

subsection \<open>A trigger pending at the end of the stream\<close>

text \<open>
  C10. Whatever value \<open>t\<close> the field \<open>trigger\<close> holds when \<^verbatim>\<open>SR_DF_END\<close> arrives, the
  chunk is the lines of the channels, each with its line terminator, and nothing else: no
  caret line is written and the text does not depend on \<open>t\<close>. With no sample buffered
  there is no chunk.
\<close>

theorem end_discards_trigger:
  assumes "length (lines ctx) = num_enabled_channels ctx"
  shows "receive (Some \<lparr>sdi = Some dev, param = p, internal = Some (ctx\<lparr>trigger := t\<rparr>)\<rparr>) SR_DF_END =
           Some (Inr (SR_OK,
             Some \<lparr>sdi = Some dev, param = p, internal = Some
               (if spl_cnt ctx \<noteq> 0
                then ctx\<lparr>trigger := t, lines := map (end_line ctx) [0..<num_enabled_channels ctx]\<rparr>
                else ctx\<lparr>trigger := t\<rparr>)\<rparr>,
             if spl_cnt ctx \<noteq> 0
             then Some (concat (map (\<lambda>i. end_line ctx i @ [CHR 0x0A]) [0..<num_enabled_channels ctx]))
             else None))"
proof -
  have "end_line (ctx\<lparr>trigger := t\<rparr>) = end_line ctx"
    by (simp add: end_line_def fun_eq_iff)
  then show ?thesis
    using receive_switch_end [of "ctx\<lparr>trigger := t\<rparr>"] assms
    by (simp add: receive_initialised)
qed

theorem end_discards_trigger_witness:
  "length (lines ctx_A) = num_enabled_channels ctx_A \<and>
   receive (Some \<lparr>sdi = Some dev_A, param = None, internal = Some (ctx_A\<lparr>trigger := 2\<rparr>)\<rparr>) SR_DF_END =
     Some (Inr (SR_OK,
       Some \<lparr>sdi = Some dev_A, param = None, internal = Some (ctx_A\<lparr>trigger := 2, lines := [''A:a0 '']\<rparr>)\<rparr>,
       Some (''A:a0 '' @ [CHR 0x0A])))"
  using end_discards_trigger [of ctx_A dev_A None 2]
  by (simp add: ctx_A_def end_line_def and7_mod8 printf_02x_160)

subsection \<open>The caret line of a pending trigger\<close>




subsection \<open>The header and the packets that cross no line boundary\<close>

text \<open>
  C8, as the code has it. For a sample packet on a context in its normal range, the chunk
  is the header still buffered (empty once it is gone) followed by what the samples of
  the packet write; afterwards no header is buffered, so the header is written once, at
  the start of the chunk of the first sample packet. When the samples of the packet do
  not bring \<open>spl_cnt\<close> up to \<open>samples_per_line\<close>, they write nothing: the chunk is the
  buffered header alone, which is an empty chunk from the second sample packet on.
\<close>

theorem header_once:
  assumes "ctx_ok ctx" and "packet_ok logic ctx"
  shows "receive (Some \<lparr>sdi = Some dev, param = p, internal = Some ctx\<rparr>) (SR_DF_LOGIC logic) =
           Some (Inr (SR_OK,
             Some \<lparr>sdi = Some dev, param = p,
                   internal = Some (run_ctx (packet_samples logic) (ctx\<lparr>header := None\<rparr>))\<rparr>,
             Some (buffered_header ctx @ run_text (packet_samples logic) (ctx\<lparr>header := None\<rparr>))))
         \<and> header (run_ctx (packet_samples logic) (ctx\<lparr>header := None\<rparr>)) = None
         \<and> (spl_cnt ctx + int (unat (logic_length logic) div unat (logic_unitsize logic)) < samples_per_line ctx
              \<longrightarrow> run_text (packet_samples logic) (ctx\<lparr>header := None\<rparr>) = [])"
  using receive_switch_logic [OF assms] run_quiet [of "ctx\<lparr>header := None\<rparr>" "packet_samples logic"]
  by (simp add: receive_initialised)

theorem header_once_witness:
  "ctx_ok ctx_C \<and> packet_ok logic_one ctx_C
   \<and> receive (Some \<lparr>sdi = Some dev_A, param = None, internal = Some ctx_C\<rparr>) (SR_DF_LOGIC logic_one) =
       Some (Inr (SR_OK,
         Some \<lparr>sdi = Some dev_A, param = None,
               internal = Some (ctx_C\<lparr>spl_cnt := 1, sample_buf := [1], header := None\<rparr>)\<rparr>,
         Some (''libsigrok 0.3.0'' @ [CHR 0x0A])))"
proof -
  have h: "ctx_ok ctx_C" "packet_ok logic_one ctx_C"
    by code_simp+
  have e: "run_ctx (packet_samples logic_one) (ctx_C\<lparr>header := None\<rparr>)
             = ctx_C\<lparr>spl_cnt := 1, sample_buf := [1], header := None\<rparr>"
    "buffered_header ctx_C @ run_text (packet_samples logic_one) (ctx_C\<lparr>header := None\<rparr>)
             = ''libsigrok 0.3.0'' @ [CHR 0x0A]"
    by code_simp+
  from header_once [OF h, of dev_A None] e show ?thesis
    using h by simp
qed

text \<open>
  The claim as it was stated fails on the first sample packet of a session: one sample
  with a line width of 192 crosses no line boundary, and the chunk is the header.
\<close>

theorem header_chunk_counterexample:
  "receive (snd (init ''libsigrok 0.3.0'' rate_A (Some out_A))) (SR_DF_LOGIC logic_one) =
     Some (Inr (SR_OK,
       Some \<lparr>sdi = Some dev_A, param = None,
             internal = Some (ctx_C\<lparr>spl_cnt := 1, sample_buf := [1], header := None\<rparr>)\<rparr>,
       Some (''libsigrok 0.3.0'' @ [CHR 0x0A])))"
  by code_simp

subsection \<open>The line width parameter\<close>

text \<open>
  C5, as the code has it. With the device present, an absent or empty parameter gives
  success and a line width of 192. A parameter that is not empty is converted by
  \<^verbatim>\<open>strtoul\<close> and stored in an \<^verbatim>\<open>int\<close>: \<^verbatim>\<open>init\<close> returns \<^verbatim>\<open>SR_ERR_ARG\<close> when
  that \<^verbatim>\<open>int\<close> is below 1 and otherwise succeeds with it as the line width. The
  conversion gives 0 for \<open>0\<close>, for \<open>abc\<close> and for every string without digits after its
  white space and sign, and the numeral's value for a plain decimal numeral below \<open>2^31\<close>.
\<close>

theorem init_line_width:
  assumes "sdi out = Some dev"
  shows "(param out = None \<or> param out = Some [] \<longrightarrow>
            init pkg rate_s (Some out) =
              (SR_OK, Some (out\<lparr>internal := Some (initial_context pkg rate_s dev 192)\<rparr>)))
       \<and> (param out = Some s \<and> s \<noteq> [] \<and> ulong_to_int (strtoul s) < 1 \<longrightarrow>
            fst (init pkg rate_s (Some out)) = SR_ERR_ARG)
       \<and> (param out = Some s \<and> s \<noteq> [] \<and> 1 \<le> ulong_to_int (strtoul s) \<longrightarrow>
            init pkg rate_s (Some out) =
              (SR_OK, Some (out\<lparr>internal := Some (initial_context pkg rate_s dev (ulong_to_int (strtoul s)))\<rparr>)))
       \<and> ulong_to_int (strtoul ''0'') = 0 \<and> ulong_to_int (strtoul ''abc'') = 0
       \<and> (takeWhile isdigit (snd (strip_sign (dropWhile isspace s))) = [] \<longrightarrow> ulong_to_int (strtoul s) = 0)
       \<and> (decimal s \<and> digits_value 0 s < 2 ^ 31 \<longrightarrow> ulong_to_int (strtoul s) = int (digits_value 0 s))"
proof -
  have a: "ulong_to_int (strtoul ''0'') = 0" "ulong_to_int (strtoul ''abc'') = 0"
    by (simp_all add: strtoul_examples ulong_to_int_examples)
  have b: "ulong_to_int (strtoul s) = 0"
    if "takeWhile isdigit (snd (strip_sign (dropWhile isspace s))) = []"
    using strtoul_no_digits [OF that] by (simp add: ulong_to_int_def)
  have c: "ulong_to_int (strtoul s) = int (digits_value 0 s)" if "decimal s" "digits_value 0 s < 2 ^ 31"
  proof -
    have "digits_value 0 s < 2 ^ 64" using that(2) by (rule less_trans) simp
    then have "strtoul s = word_of_nat (digits_value 0 s)"
      using strtoul_decimal [OF that(1)] by simp
    then show ?thesis using ulong_to_int_small [OF that(2)] by simp
  qed
  have n: "param out = None \<or> param out = Some [] \<Longrightarrow> \<not> param_present out"
    by (auto simp: param_present_def)
  have p: "param out = Some s \<Longrightarrow> s \<noteq> [] \<Longrightarrow>
           param_present out \<and> param_width out = ulong_to_int (strtoul s)"
    by (simp add: param_present_def param_width_def)
  have 1: "param out = None \<or> param out = Some [] \<longrightarrow>
            init pkg rate_s (Some out) =
              (SR_OK, Some (out\<lparr>internal := Some (initial_context pkg rate_s dev 192)\<rparr>))"
    using n by (auto simp: init_eq [OF assms] param_width_def DEFAULT_SAMPLES_PER_LINE_def)
  have 2: "param out = Some s \<and> s \<noteq> [] \<and> ulong_to_int (strtoul s) < 1 \<longrightarrow>
            fst (init pkg rate_s (Some out)) = SR_ERR_ARG"
    using p by (simp add: init_eq [OF assms])
  have 3: "param out = Some s \<and> s \<noteq> [] \<and> 1 \<le> ulong_to_int (strtoul s) \<longrightarrow>
            init pkg rate_s (Some out) =
              (SR_OK, Some (out\<lparr>internal := Some (initial_context pkg rate_s dev (ulong_to_int (strtoul s)))\<rparr>))"
    using p by (simp add: init_eq [OF assms])
  from 1 2 3 a b c show ?thesis
    by blast
qed


theorem init_line_width_witness:
  "init ''libsigrok 0.3.0'' rate_A (Some out_A) =
     (SR_OK, Some (out_A\<lparr>internal := Some (initial_context ''libsigrok 0.3.0'' rate_A dev_A 192)\<rparr>))
   \<and> fst (init ''libsigrok 0.3.0'' rate_A (Some (out_A\<lparr>param := Some ''0''\<rparr>))) = SR_ERR_ARG
   \<and> fst (init ''libsigrok 0.3.0'' rate_A (Some (out_A\<lparr>param := Some ''abc''\<rparr>))) = SR_ERR_ARG
   \<and> init ''libsigrok 0.3.0'' rate_A (Some (out_A\<lparr>param := Some ''64''\<rparr>)) =
     (SR_OK, Some (out_A\<lparr>param := Some ''64'',
                         internal := Some (initial_context ''libsigrok 0.3.0'' rate_A dev_A 64)\<rparr>))"
proof -
  have s: "sdi out_A = Some dev_A" "sdi (out_A\<lparr>param := Some p\<rparr>) = Some dev_A" for p
    by (simp_all add: out_A_def)
  have p: "param out_A = None" "param (out_A\<lparr>param := Some p\<rparr>) = Some p" for p
    by (simp_all add: out_A_def)
  have v: "ulong_to_int (strtoul ''0'') < 1" "ulong_to_int (strtoul ''abc'') < 1"
    "ulong_to_int (strtoul ''64'') = 64"
    by (simp_all add: strtoul_examples ulong_to_int_examples)
  note t = init_line_width [where pkg = "''libsigrok 0.3.0''" and rate_s = rate_A]
  have 1: "init ''libsigrok 0.3.0'' rate_A (Some out_A) =
     (SR_OK, Some (out_A\<lparr>internal := Some (initial_context ''libsigrok 0.3.0'' rate_A dev_A 192)\<rparr>))"
    using t [OF s(1), where s = "[]"] p(1) by blast
  have 2: "fst (init ''libsigrok 0.3.0'' rate_A (Some (out_A\<lparr>param := Some ''0''\<rparr>))) = SR_ERR_ARG"
    using t [OF s(2), where p1 = "''0''" and s = "''0''"] p(2) v(1) by blast
  have 3: "fst (init ''libsigrok 0.3.0'' rate_A (Some (out_A\<lparr>param := Some ''abc''\<rparr>))) = SR_ERR_ARG"
    using t [OF s(2), where p1 = "''abc''" and s = "''abc''"] p(2) v(2) by blast
  have "param (out_A\<lparr>param := Some ''64''\<rparr>) = Some ''64'' \<and> ''64'' \<noteq> [] \<and> 1 \<le> ulong_to_int (strtoul ''64'')"
    by (simp add: p v)
  with t [OF s(2), where p1 = "''64''" and s = "''64''"]
  have "init ''libsigrok 0.3.0'' rate_A (Some (out_A\<lparr>param := Some ''64''\<rparr>)) =
     (SR_OK, Some (out_A\<lparr>param := Some ''64'',
        internal := Some (initial_context ''libsigrok 0.3.0'' rate_A dev_A (ulong_to_int (strtoul ''64'')))\<rparr>))"
    by blast
  then have 4: "init ''libsigrok 0.3.0'' rate_A (Some (out_A\<lparr>param := Some ''64''\<rparr>)) =
     (SR_OK, Some (out_A\<lparr>param := Some ''64'',
                         internal := Some (initial_context ''libsigrok 0.3.0'' rate_A dev_A 64)\<rparr>))"
    by (simp only: v)
  from 1 2 3 4 show ?thesis by blast
qed

text \<open>
  The claim as it was stated fails on a parameter that is present but empty, which is
  taken as absent, and on one with text after the digits, which is accepted.
\<close>

theorem init_line_width_counterexample:
  "init ''libsigrok 0.3.0'' rate_A (Some (out_A\<lparr>param := Some []\<rparr>)) =
     (SR_OK, Some (out_A\<lparr>param := Some [],
                         internal := Some (initial_context ''libsigrok 0.3.0'' rate_A dev_A 192)\<rparr>))
   \<and> init ''libsigrok 0.3.0'' rate_A (Some (out_A\<lparr>param := Some ''12abc''\<rparr>)) =
     (SR_OK, Some (out_A\<lparr>param := Some ''12abc'',
                         internal := Some (initial_context ''libsigrok 0.3.0'' rate_A dev_A 12)\<rparr>))"
proof -
  have s: "sdi (out_A\<lparr>param := Some p\<rparr>) = Some dev_A" for p
    by (simp add: out_A_def)
  show ?thesis
    by (simp only: init_eq [OF s])
       (simp add: param_present_def param_width_def DEFAULT_SAMPLES_PER_LINE_def
          strtoul_examples ulong_to_int_examples out_A_def)
qed

subsection \<open>The context after a failed init\<close>

text \<open>
  C6 at the parameter \<open>0\<close>: \<^verbatim>\<open>init\<close> returns \<^verbatim>\<open>SR_ERR_ARG\<close> and leaves the zeroed
  context in the handle; \<^verbatim>\<open>receive\<close> then accepts a trigger packet and a sample packet
  on it and returns \<^verbatim>\<open>SR_OK\<close>.
\<close>

theorem init_failure_keeps_context:
  "init ''libsigrok 0.3.0'' rate_A (Some (out_A\<lparr>param := Some ''0''\<rparr>)) =
     (SR_ERR_ARG, Some (out_A\<lparr>param := Some ''0'', internal := Some (zero_context\<lparr>trigger := - 1\<rparr>)\<rparr>))
   \<and> receive (Some (out_A\<lparr>param := Some ''0'', internal := Some (zero_context\<lparr>trigger := - 1\<rparr>)\<rparr>)) SR_DF_TRIGGER =
       Some (Inr (SR_OK,
         Some (out_A\<lparr>param := Some ''0'', internal := Some (zero_context\<lparr>trigger := 0\<rparr>)\<rparr>), None))
   \<and> receive (Some (out_A\<lparr>param := Some ''0'', internal := Some (zero_context\<lparr>trigger := - 1\<rparr>)\<rparr>)) (SR_DF_LOGIC logic_one) =
       Some (Inr (SR_OK,
         Some (out_A\<lparr>param := Some ''0'', internal := Some (zero_context\<lparr>trigger := - 1, spl_cnt := 1\<rparr>)\<rparr>),
         Some []))"
proof -
  have s: "sdi (out_A\<lparr>param := Some p\<rparr>) = Some dev_A" for p
    by (simp add: out_A_def)
  have 1: "init ''libsigrok 0.3.0'' rate_A (Some (out_A\<lparr>param := Some ''0''\<rparr>)) =
     (SR_ERR_ARG, Some (out_A\<lparr>param := Some ''0'', internal := Some (zero_context\<lparr>trigger := - 1\<rparr>)\<rparr>))"
    by (simp only: init_eq [OF s])
       (simp add: param_present_def param_width_def
          strtoul_examples ulong_to_int_examples out_A_def)
  have 2: "receive (Some (out_A\<lparr>param := Some ''0'', internal := Some (zero_context\<lparr>trigger := - 1\<rparr>)\<rparr>)) SR_DF_TRIGGER =
       Some (Inr (SR_OK,
         Some (out_A\<lparr>param := Some ''0'', internal := Some (zero_context\<lparr>trigger := 0\<rparr>)\<rparr>), None))"
    by code_simp
  have 3: "receive (Some (out_A\<lparr>param := Some ''0'', internal := Some (zero_context\<lparr>trigger := - 1\<rparr>)\<rparr>)) (SR_DF_LOGIC logic_one) =
       Some (Inr (SR_OK,
         Some (out_A\<lparr>param := Some ''0'', internal := Some (zero_context\<lparr>trigger := - 1, spl_cnt := 1\<rparr>)\<rparr>),
         Some []))"
    by code_simp
  from 1 2 3 show ?thesis by blast
qed

subsection \<open>A length that is not a multiple of the unit size\<close>

text \<open>
  C1, as the code has it. The length is never checked and no data error is returned. For a
  packet of at least one unit, on a context in its normal range, with a buffer that holds
  the declared length and every selected channel's byte inside the unit, \<^verbatim>\<open>receive\<close>
  returns \<^verbatim>\<open>SR_OK\<close> with a chunk; it runs through the \<open>length div unitsize\<close> whole
  samples and no further, without a read outside the buffer (the result is no fault), and
  the result is the one for the packet cut down to its whole samples: the trailing
  \<open>length mod unitsize\<close> bytes are not looked at.
\<close>

theorem partial_sample_ignored:
  assumes "ctx_ok ctx" and "packet_ok logic ctx"
  shows "receive (Some \<lparr>sdi = Some dev, param = p, internal = Some ctx\<rparr>) (SR_DF_LOGIC logic) =
           Some (Inr (SR_OK,
             Some \<lparr>sdi = Some dev, param = p,
                   internal = Some (run_ctx (packet_samples logic) (ctx\<lparr>header := None\<rparr>))\<rparr>,
             Some (buffered_header ctx @ run_text (packet_samples logic) (ctx\<lparr>header := None\<rparr>))))
         \<and> length (packet_samples logic) = unat (logic_length logic) div unat (logic_unitsize logic)
         \<and> receive (Some \<lparr>sdi = Some dev, param = p, internal = Some ctx\<rparr>) (SR_DF_LOGIC (whole_samples logic))
             = receive (Some \<lparr>sdi = Some dev, param = p, internal = Some ctx\<rparr>) (SR_DF_LOGIC logic)"
  using receive_switch_logic [OF assms] receive_whole_samples [OF assms]
  by (simp add: receive_initialised)

theorem partial_sample_ignored_witness:
  "ctx_ok ctx_C \<and> packet_ok logic_odd ctx_C
   \<and> unat (logic_length logic_odd) mod unat (logic_unitsize logic_odd) \<noteq> 0
   \<and> whole_samples logic_odd = \<lparr>logic_length = 2, logic_unitsize = 2, logic_data = [1, 0]\<rparr>
   \<and> receive (Some \<lparr>sdi = Some dev_A, param = None, internal = Some ctx_C\<rparr>) (SR_DF_LOGIC logic_odd) =
       Some (Inr (SR_OK,
         Some \<lparr>sdi = Some dev_A, param = None,
               internal = Some (ctx_C\<lparr>spl_cnt := 1, sample_buf := [1], header := None\<rparr>)\<rparr>,
         Some (''libsigrok 0.3.0'' @ [CHR 0x0A])))
   \<and> receive (Some \<lparr>sdi = Some dev_A, param = None, internal = Some ctx_C\<rparr>)
         (SR_DF_LOGIC \<lparr>logic_length = 2, logic_unitsize = 2, logic_data = [1, 0]\<rparr>)
       = receive (Some \<lparr>sdi = Some dev_A, param = None, internal = Some ctx_C\<rparr>) (SR_DF_LOGIC logic_odd)"
proof -
  have h: "ctx_ok ctx_C" "packet_ok logic_odd ctx_C"
    by code_simp+
  have e: "run_ctx (packet_samples logic_odd) (ctx_C\<lparr>header := None\<rparr>)
             = ctx_C\<lparr>spl_cnt := 1, sample_buf := [1], header := None\<rparr>"
    "buffered_header ctx_C @ run_text (packet_samples logic_odd) (ctx_C\<lparr>header := None\<rparr>)
             = ''libsigrok 0.3.0'' @ [CHR 0x0A]"
    "unat (logic_length logic_odd) mod unat (logic_unitsize logic_odd) \<noteq> 0"
    "whole_samples logic_odd = \<lparr>logic_length = 2, logic_unitsize = 2, logic_data = [1, 0]\<rparr>"
    by code_simp+
  from partial_sample_ignored [OF h, of dev_A None] h e show ?thesis
    by simp
qed

text \<open>
  The claim as it was stated fails on the first packet after \<^verbatim>\<open>init\<close> with three bytes
  of two-byte samples: \<^verbatim>\<open>SR_OK\<close>, and a chunk.
\<close>

theorem partial_sample_counterexample:
  "receive (snd (init ''libsigrok 0.3.0'' rate_A (Some out_A))) (SR_DF_LOGIC logic_odd) =
     Some (Inr (SR_OK,
       Some \<lparr>sdi = Some dev_A, param = None,
             internal = Some (ctx_C\<lparr>spl_cnt := 1, sample_buf := [1], header := None\<rparr>)\<rparr>,
       Some (''libsigrok 0.3.0'' @ [CHR 0x0A])))"
  by code_simp

text \<open>
  A packet shorter than one unit is outside the statement above: the loop bound
  \<^verbatim>\<open>logic->length - logic->unitsize\<close> wraps around and the loop reads past the buffer.
\<close>

lemma short_packet_reads_outside:
  "receive (snd (init ''libsigrok 0.3.0'' rate_A (Some out_A))) (SR_DF_LOGIC logic_short) = Some (Inl OutOfBounds)"
  by code_simp

subsection \<open>Decoding the hex text of a stream\<close>

text \<open>
  C2, as the code has it. The round trip is asked for every line width; the code pads the
  last byte of the stream with zero bits, and keeps every bit only when the line width is a
  multiple of 8. For an encoder initialised with a line width \<open>W\<close> that is a positive
  multiple of 8 (up to 1908874353), a stream of well-formed sample-batch packets followed by
  the end-of-stream packet yields, chunk behind chunk, the header (when there is a packet at
  all) and then for every \<open>W\<close> samples, and for the samples left at the end, one line per
  selected channel: the name, a colon, the hex bytes of the channel's bits and a line feed.
  Decoding the hex bytes of a channel, most significant bit first and in line order, gives
  the bits of the input samples at that channel's bit index, followed by the zero bits that
  fill the last byte.
\<close>

theorem hex_round_trip:
  assumes dev: "sdi out = Some dev"
    and W: "param_width out = int W" "0 < W" "8 dvd W" "W \<le> 1908874353"
    and pk: "list_all (\<lambda>l. packet_ok l (initial_context pkg rate_s dev (int W))) ls"
  shows "fed_text (feed (snd (init pkg rate_s (Some out))) (map SR_DF_LOGIC ls @ [SR_DF_END]))
           = Some ((if ls = [] then [] else make_header pkg rate_s dev (length (selected dev)))
                   @ concat (map (block (initial_context pkg rate_s dev (int W)))
                                 (chunks W (concat (map packet_samples ls)))))
       \<and> (\<forall>j < length (selected dev).
            concat (map (\<lambda>g. decode_line (hex_line (chan_bits (initial_context pkg rate_s dev (int W)) j g)))
                        (chunks W (concat (map packet_samples ls))))
              = chan_bits (initial_context pkg rate_s dev (int W)) j (concat (map packet_samples ls))
                @ replicate ((8 - length (concat (map packet_samples ls)) mod 8) mod 8) False)"
proof -
  let ?c = "initial_context pkg rate_s dev (int W)"
  have st: "line_start ?c" using W(2-4) by (rule initial_context_start)
  then have ok: "ctx_ok ?c" by (simp add: line_start_def)
  have "out\<lparr>internal := Some ?c\<rparr> = \<lparr>sdi = Some dev, param = param out, internal = Some ?c\<rparr>"
    using dev by (cases out) simp
  then have i: "snd (init pkg rate_s (Some out)) = Some \<lparr>sdi = Some dev, param = param out, internal = Some ?c\<rparr>"
    using W(1,2) by (simp add: init_eq [OF dev])
  have w: "int W = samples_per_line ?c" by (simp add: initial_context_def)
  have h: "buffered_header ?c = make_header pkg rate_s dev (length (selected dev))"
    by (simp add: buffered_header_def initial_context_def)
  have 1: "fed_text (feed (snd (init pkg rate_s (Some out))) (map SR_DF_LOGIC ls @ [SR_DF_END]))
           = Some ((if ls = [] then [] else make_header pkg rate_s dev (length (selected dev)))
                   @ concat (map (block ?c) (chunks W (concat (map packet_samples ls)))))"
    unfolding i feed_stream [OF ok pk] h
    using stream_text [OF st w, of "concat (map packet_samples ls)"] by simp
  from decode_stream [OF W(3,2)] 1 show ?thesis by blast
qed

theorem hex_round_trip_witness:
  "sdi (out_A\<lparr>param := Some ''8''\<rparr>) = Some dev_A
   \<and> param_width (out_A\<lparr>param := Some ''8''\<rparr>) = int 8 \<and> (0::nat) < 8 \<and> (8::nat) dvd 8
   \<and> (8::nat) \<le> 1908874353
   \<and> list_all (\<lambda>l. packet_ok l (initial_context ''libsigrok 0.3.0'' rate_A dev_A (int 8))) [logic_11]
   \<and> fed_text (feed (snd (init ''libsigrok 0.3.0'' rate_A (Some (out_A\<lparr>param := Some ''8''\<rparr>))))
                     (map SR_DF_LOGIC [logic_11] @ [SR_DF_END]))
       = Some (''libsigrok 0.3.0'' @ [CHR 0x0A] @ ''A:f0 '' @ [CHR 0x0A] @ ''A:a0 '' @ [CHR 0x0A])
   \<and> decode_line ''f0 '' @ decode_line ''a0 ''
       = chan_bits (initial_context ''libsigrok 0.3.0'' rate_A dev_A (int 8)) 0 (packet_samples logic_11)
         @ replicate 5 False"
proof -
  let ?c = "initial_context ''libsigrok 0.3.0'' rate_A dev_A (int 8)"
  have h: "sdi (out_A\<lparr>param := Some ''8''\<rparr>) = Some dev_A"
    "param_width (out_A\<lparr>param := Some ''8''\<rparr>) = int 8" "(0::nat) < 8" "(8::nat) dvd 8"
    "(8::nat) \<le> 1908874353"
    by (simp_all add: out_A_def param_width_def param_present_def strtoul_8_12)
  have p: "list_all (\<lambda>l. packet_ok l ?c) [logic_11]"
    by code_simp
  have e: "(if [logic_11] = [] then [] else make_header ''libsigrok 0.3.0'' rate_A dev_A (length (selected dev_A)))
             @ concat (map (block ?c) (chunks 8 (concat (map packet_samples [logic_11]))))
           = ''libsigrok 0.3.0'' @ [CHR 0x0A] @ ''A:f0 '' @ [CHR 0x0A] @ ''A:a0 '' @ [CHR 0x0A]"
    "concat (map (\<lambda>g. decode_line (hex_line (chan_bits ?c 0 g))) (chunks 8 (concat (map packet_samples [logic_11]))))
           = decode_line ''f0 '' @ decode_line ''a0 ''"
    "(8 - length (concat (map packet_samples [logic_11])) mod 8) mod 8 = 5"
    "0 < length (selected dev_A)"
    by code_simp+
  note t = hex_round_trip [OF h p]
  from t have 1: "fed_text (feed (snd (init ''libsigrok 0.3.0'' rate_A (Some (out_A\<lparr>param := Some ''8''\<rparr>))))
                     (map SR_DF_LOGIC [logic_11] @ [SR_DF_END]))
       = Some (''libsigrok 0.3.0'' @ [CHR 0x0A] @ ''A:f0 '' @ [CHR 0x0A] @ ''A:a0 '' @ [CHR 0x0A])"
    by (simp only: e(1))
  from t e(4) have "concat (map (\<lambda>g. decode_line (hex_line (chan_bits ?c 0 g))) (chunks 8 (concat (map packet_samples [logic_11]))))
              = chan_bits ?c 0 (concat (map packet_samples [logic_11]))
                @ replicate ((8 - length (concat (map packet_samples [logic_11])) mod 8) mod 8) False"
    by blast
  then have 2: "decode_line ''f0 '' @ decode_line ''a0 ''
       = chan_bits ?c 0 (packet_samples logic_11) @ replicate 5 False"
    by (simp only: e(2) e(3)) simp
  from h p 1 2 show ?thesis by blast
qed

text \<open>
  With a line width of 12 the four bits left in the accumulator at the end of the first
  line are shifted out before the next byte is written: twelve one-samples and eight
  zero-samples come out as \<^verbatim>\<open>ff\<close> and \<^verbatim>\<open>00\<close>, sixteen bits for twenty. With a line width of 8,
  three samples come out as one byte that decodes to eight bits.
\<close>

theorem hex_round_trip_counterexample:
  "fed_text (feed (Some \<lparr>sdi = Some dev_A, param = Some ''12'',
                         internal = Some (initial_context ''libsigrok 0.3.0'' rate_A dev_A 12)\<rparr>)
                  [SR_DF_LOGIC logic_ones12, SR_DF_LOGIC logic_zeros8, SR_DF_END])
     = Some (''libsigrok 0.3.0'' @ [CHR 0x0A] @ ''A:ff '' @ [CHR 0x0A] @ ''A:00 '' @ [CHR 0x0A])
   \<and> decode_line ''ff '' @ decode_line ''00 '' = replicate 8 True @ replicate 8 False
   \<and> chan_bits (initial_context ''libsigrok 0.3.0'' rate_A dev_A 12) 0
         (packet_samples logic_ones12 @ packet_samples logic_zeros8)
       = replicate 12 True @ replicate 8 False
   \<and> fed_text (feed (Some \<lparr>sdi = Some dev_A, param = Some ''8'',
                         internal = Some (initial_context ''libsigrok 0.3.0'' rate_A dev_A 8)\<rparr>)
                  [SR_DF_LOGIC logic_3, SR_DF_END])
     = Some (''libsigrok 0.3.0'' @ [CHR 0x0A] @ ''A:a0 '' @ [CHR 0x0A])
   \<and> decode_line ''a0 '' = [True, False, True, False, False, False, False, False]
   \<and> chan_bits (initial_context ''libsigrok 0.3.0'' rate_A dev_A 8) 0 (packet_samples logic_3)
       = [True, False, True]"
  by code_simp

subsection \<open>The partial byte at the end of the stream\<close>

text \<open>
  C3. When the end-of-stream packet arrives with a sample count above zero that is not
  a multiple of 8, the line of every selected channel gets one more hex byte, the
  accumulator shifted left by 8 minus the count modulo 8, and the chunk is every channel's
  whole line followed by a line feed. In particular, three samples into a line of width 8
  that started with empty accumulators, the byte is the three collected bits times 32.
\<close>

theorem end_partial_byte:
  assumes "length (lines ctx) = num_enabled_channels ctx"
    and "0 < spl_cnt ctx" and "spl_cnt ctx mod 8 \<noteq> 0"
  shows "receive (Some \<lparr>sdi = Some dev, param = p, internal = Some ctx\<rparr>) SR_DF_END =
           Some (Inr (SR_OK,
             Some \<lparr>sdi = Some dev, param = p, internal = Some
               (ctx\<lparr>lines := map (\<lambda>i. lines ctx ! i
                        @ printf_02x (unat (sample_buf ctx ! i) * 2 ^ (8 - nat (spl_cnt ctx mod 8))) @ '' '')
                      [0..<num_enabled_channels ctx]\<rparr>)\<rparr>,
             Some (concat (map (\<lambda>i. lines ctx ! i
                        @ printf_02x (unat (sample_buf ctx ! i) * 2 ^ (8 - nat (spl_cnt ctx mod 8))) @ '' ''
                        @ [CHR 0x0A])
                      [0..<num_enabled_channels ctx]))))
       \<and> (line_start c0 \<and> samples_per_line c0 = 8 \<and> length g = 3 \<and> ctx = run_ctx g c0 \<longrightarrow>
            receive (Some \<lparr>sdi = Some dev, param = p, internal = Some ctx\<rparr>) SR_DF_END =
              Some (Inr (SR_OK,
                Some \<lparr>sdi = Some dev, param = p, internal = Some
                  (ctx\<lparr>lines := map (\<lambda>i. channel_names c0 ! i @ '':''
                        @ printf_02x (bits_value (chan_bits c0 i g) * 32) @ '' '')
                      [0..<num_enabled_channels ctx]\<rparr>)\<rparr>,
                Some (concat (map (\<lambda>i. channel_names c0 ! i @ '':''
                        @ printf_02x (bits_value (chan_bits c0 i g) * 32) @ '' '' @ [CHR 0x0A])
                      [0..<num_enabled_channels ctx])))))"
proof -
  let ?n = "num_enabled_channels ctx"
  from assms(2) have nz: "spl_cnt ctx \<noteq> 0" by simp
  have el: "end_line ctx = (\<lambda>i. lines ctx ! i
              @ printf_02x (unat (sample_buf ctx ! i) * 2 ^ (8 - nat (spl_cnt ctx mod 8))) @ '' '')"
    using end_line_shifted [OF assms(2,3)] by (simp add: fun_eq_iff)
  have 1: "receive (Some \<lparr>sdi = Some dev, param = p, internal = Some ctx\<rparr>) SR_DF_END =
           Some (Inr (SR_OK,
             Some \<lparr>sdi = Some dev, param = p, internal = Some
               (ctx\<lparr>lines := map (\<lambda>i. lines ctx ! i
                        @ printf_02x (unat (sample_buf ctx ! i) * 2 ^ (8 - nat (spl_cnt ctx mod 8))) @ '' '')
                      [0..<?n]\<rparr>)\<rparr>,
             Some (concat (map (\<lambda>i. lines ctx ! i
                        @ printf_02x (unat (sample_buf ctx ! i) * 2 ^ (8 - nat (spl_cnt ctx mod 8))) @ '' ''
                        @ [CHR 0x0A])
                      [0..<?n]))))"
    using receive_end [OF assms(1) nz, of dev p] by (simp add: end_text_def nz el)
  have 2: "receive (Some \<lparr>sdi = Some dev, param = p, internal = Some ctx\<rparr>) SR_DF_END =
              Some (Inr (SR_OK,
                Some \<lparr>sdi = Some dev, param = p, internal = Some
                  (ctx\<lparr>lines := map (\<lambda>i. channel_names c0 ! i @ '':''
                        @ printf_02x (bits_value (chan_bits c0 i g) * 32) @ '' '')
                      [0..<?n]\<rparr>)\<rparr>,
                Some (concat (map (\<lambda>i. channel_names c0 ! i @ '':''
                        @ printf_02x (bits_value (chan_bits c0 i g) * 32) @ '' '' @ [CHR 0x0A])
                      [0..<?n]))))"
    if st: "line_start c0" and w: "samples_per_line c0 = 8" and g: "length g = 3" and c: "ctx = run_ctx g c0"
  proof -
    have z: "spl_cnt c0 = 0" using st by (simp add: line_start_def)
    have lt: "int (length g) < samples_per_line c0" using w g by simp
    have n: "?n = num_enabled_channels c0" by (simp add: c)
    have line: "lines ctx ! i @ printf_02x (unat (sample_buf ctx ! i) * 2 ^ (8 - nat (spl_cnt ctx mod 8))) @ '' ''
          = channel_names c0 ! i @ '':'' @ printf_02x (bits_value (chan_bits c0 i g) * 32) @ '' ''"
      if i: "i < ?n" for i
    proof -
      from i have i0: "i < num_enabled_channels c0" by (simp add: n)
      note s = quiet_state [OF z lt i0]
      have pb: "pending (chan_bits c0 i g) = chan_bits c0 i g" "hex_done (chan_bits c0 i g) = []"
        by (simp_all add: pending_def hex_done_def g)
      have "sample_buf ctx ! i = pack (chan_bits c0 i g)"
        using s line_startD(2) [OF st i0] by (simp add: c pb pack_def g)
      then have "unat (sample_buf ctx ! i) = bits_value (chan_bits c0 i g)"
        by (simp add: unat_pack g)
      moreover have "lines ctx ! i = channel_names c0 ! i @ '':''"
        using s line_startD(1) [OF st i0] by (simp add: c pb)
      moreover have "spl_cnt ctx = 3" using s by (simp add: c g)
      ultimately show ?thesis by simp
    qed
    have m1: "map (\<lambda>i. lines ctx ! i
                @ printf_02x (unat (sample_buf ctx ! i) * 2 ^ (8 - nat (spl_cnt ctx mod 8))) @ '' '') [0..<?n]
          = map (\<lambda>i. channel_names c0 ! i @ '':''
                @ printf_02x (bits_value (chan_bits c0 i g) * 32) @ '' '') [0..<?n]"
      by (rule map_cong) (simp_all add: line)
    have m2: "map (\<lambda>i. lines ctx ! i
                @ printf_02x (unat (sample_buf ctx ! i) * 2 ^ (8 - nat (spl_cnt ctx mod 8))) @ '' '' @ [CHR 0x0A]) [0..<?n]
          = map (\<lambda>i. channel_names c0 ! i @ '':''
                @ printf_02x (bits_value (chan_bits c0 i g) * 32) @ '' '' @ [CHR 0x0A]) [0..<?n]"
    proof (rule map_cong)
      fix i assume "i \<in> set [0..<?n]"
      then have "i < ?n" by simp
      from line [OF this] show "lines ctx ! i
                @ printf_02x (unat (sample_buf ctx ! i) * 2 ^ (8 - nat (spl_cnt ctx mod 8))) @ '' '' @ [CHR 0x0A]
          = channel_names c0 ! i @ '':''
                @ printf_02x (bits_value (chan_bits c0 i g) * 32) @ '' '' @ [CHR 0x0A]"
        by (simp only: append_assoc [symmetric])
    qed simp
    show ?thesis
      by (simp only: 1 m1 m2)
  qed
  from 1 2 show ?thesis by blast
qed

theorem end_partial_byte_witness:
  "length (lines ctx_A) = num_enabled_channels ctx_A \<and> 0 < spl_cnt ctx_A \<and> spl_cnt ctx_A mod 8 \<noteq> 0
   \<and> line_start ctx_E \<and> samples_per_line ctx_E = 8 \<and> length (packet_samples logic_3) = 3
   \<and> ctx_A = run_ctx (packet_samples logic_3) ctx_E
   \<and> chan_bits ctx_E 0 (packet_samples logic_3) = [True, False, True]
   \<and> receive (Some \<lparr>sdi = Some dev_A, param = None, internal = Some ctx_A\<rparr>) SR_DF_END =
       Some (Inr (SR_OK,
         Some \<lparr>sdi = Some dev_A, param = None, internal = Some (ctx_A\<lparr>lines := [''A:a0 '']\<rparr>)\<rparr>,
         Some (''A:a0 '' @ [CHR 0x0A])))"
proof -
  have h: "length (lines ctx_A) = num_enabled_channels ctx_A" "0 < spl_cnt ctx_A"
    "spl_cnt ctx_A mod 8 \<noteq> 0"
    by code_simp+
  have g: "line_start ctx_E" "samples_per_line ctx_E = 8" "length (packet_samples logic_3) = 3"
    "ctx_A = run_ctx (packet_samples logic_3) ctx_E"
    "chan_bits ctx_E 0 (packet_samples logic_3) = [True, False, True]"
    by code_simp+
  have e: "map (\<lambda>i. channel_names ctx_E ! i @ '':''
                  @ printf_02x (bits_value (chan_bits ctx_E i (packet_samples logic_3)) * 32) @ '' '')
             [0..<num_enabled_channels ctx_A] = [''A:a0 '']"
    "concat (map (\<lambda>i. channel_names ctx_E ! i @ '':''
                  @ printf_02x (bits_value (chan_bits ctx_E i (packet_samples logic_3)) * 32) @ '' '' @ [CHR 0x0A])
             [0..<num_enabled_channels ctx_A]) = ''A:a0 '' @ [CHR 0x0A]"
    by code_simp+
  from end_partial_byte [OF h, where dev = dev_A and p = None and ?c0.0 = ctx_E
      and g = "packet_samples logic_3"] g
  have "receive (Some \<lparr>sdi = Some dev_A, param = None, internal = Some ctx_A\<rparr>) SR_DF_END =
              Some (Inr (SR_OK,
                Some \<lparr>sdi = Some dev_A, param = None, internal = Some
                  (ctx_A\<lparr>lines := map (\<lambda>i. channel_names ctx_E ! i @ '':''
                        @ printf_02x (bits_value (chan_bits ctx_E i (packet_samples logic_3)) * 32) @ '' '')
                      [0..<num_enabled_channels ctx_A]\<rparr>)\<rparr>,
                Some (concat (map (\<lambda>i. channel_names ctx_E ! i @ '':''
                        @ printf_02x (bits_value (chan_bits ctx_E i (packet_samples logic_3)) * 32) @ '' '' @ [CHR 0x0A])
                      [0..<num_enabled_channels ctx_A]))))"
    by blast
  then have "receive (Some \<lparr>sdi = Some dev_A, param = None, internal = Some ctx_A\<rparr>) SR_DF_END =
       Some (Inr (SR_OK,
         Some \<lparr>sdi = Some dev_A, param = None, internal = Some (ctx_A\<lparr>lines := [''A:a0 '']\<rparr>)\<rparr>,
         Some (''A:a0 '' @ [CHR 0x0A])))"
    by (simp only: e)
  with h g show ?thesis by blast
qed

subsection \<open>The accumulators across a line flush\<close>

text \<open>
  C9 at a line width of 12, one channel, twelve one-samples and then eight zero-samples. The
  flush of the first line hands out \<^verbatim>\<open>A:ff\<close> and leaves the four trailing one-bits in the
  accumulator, which is not cleared. They are not carried into the first byte rendered in
  the following line: that byte is \<^verbatim>\<open>00\<close>, not the \<^verbatim>\<open>f0\<close> of four one-bits and four
  zero-bits, and the end of the stream adds nothing to it, so the four samples never reach
  the text. The same twelve samples in a line of width 16 are rendered in full,
  \<^verbatim>\<open>ff f0\<close>, by the end-of-stream flush.
\<close>

theorem carried_bits_dropped:
  "receive (Some \<lparr>sdi = Some dev_A, param = Some ''12'',
                  internal = Some (initial_context ''libsigrok 0.3.0'' rate_A dev_A 12)\<rparr>)
           (SR_DF_LOGIC logic_ones12)
     = Some (Inr (SR_OK, Some \<lparr>sdi = Some dev_A, param = Some ''12'', internal = Some ctx_D\<rparr>,
                  Some (''libsigrok 0.3.0'' @ [CHR 0x0A] @ ''A:ff '' @ [CHR 0x0A])))
   \<and> sample_buf ctx_D = [15]
   \<and> receive (Some \<lparr>sdi = Some dev_A, param = Some ''12'', internal = Some ctx_D\<rparr>)
             (SR_DF_LOGIC logic_zeros8)
     = Some (Inr (SR_OK, Some \<lparr>sdi = Some dev_A, param = Some ''12'',
                                internal = Some (ctx_D\<lparr>spl_cnt := 8, sample_buf := [0], lines := [''A:00 '']\<rparr>)\<rparr>,
                  Some []))
   \<and> printf_02x (unat (pack (replicate 4 True @ replicate 4 False))) = ''f0''
   \<and> receive (Some \<lparr>sdi = Some dev_A, param = Some ''12'',
                    internal = Some (ctx_D\<lparr>spl_cnt := 8, sample_buf := [0], lines := [''A:00 '']\<rparr>)\<rparr>)
             SR_DF_END
     = Some (Inr (SR_OK, Some \<lparr>sdi = Some dev_A, param = Some ''12'',
                                internal = Some (ctx_D\<lparr>spl_cnt := 8, sample_buf := [0], lines := [''A:00 '']\<rparr>)\<rparr>,
                  Some (''A:00 '' @ [CHR 0x0A])))
   \<and> fed_text (feed (Some \<lparr>sdi = Some dev_A, param = Some ''16'',
                            internal = Some (initial_context ''libsigrok 0.3.0'' rate_A dev_A 16)\<rparr>)
                     [SR_DF_LOGIC logic_ones12, SR_DF_END])
     = Some (''libsigrok 0.3.0'' @ [CHR 0x0A] @ ''A:ff f0 '' @ [CHR 0x0A])"
  by code_simp

end
